theory Spec2Isabelle
  imports Complex_Main "HOL-Library.Word"
begin

unbundle bit_operations_syntax

section \<open>JavaScript values used by the Shamir module\<close>

text \<open>
  A \<^verbatim>\<open>Uint8Array\<close> is a list of bytes. A JavaScript number that the module computes
  with is a non-negative integer (below \<open>2 ^ 31\<close>, where \<^verbatim>\<open>^\<close> is exact); \<open>None\<close> stands
  for \<^verbatim>\<open>undefined\<close> and \<^verbatim>\<open>NaN\<close>, which the source produces when it reads a typed
  array out of range and then computes with the result.
\<close>

type_synonym byte = "8 word"
type_synonym jsnum = "nat option"

text \<open>\<^verbatim>\<open>T[i]\<close> on a typed array: \<^verbatim>\<open>undefined\<close> out of range or at a non-index.\<close>

definition typed_get :: "byte list \<Rightarrow> jsnum \<Rightarrow> jsnum" where
  "typed_get T i = (case i of None \<Rightarrow> None
                    | Some n \<Rightarrow> if n < length T then Some (unat (T ! n)) else None)"

text \<open>\<^verbatim>\<open>a + b\<close>: \<^verbatim>\<open>NaN\<close> as soon as one operand is \<^verbatim>\<open>undefined\<close>.\<close>

definition js_add :: "jsnum \<Rightarrow> jsnum \<Rightarrow> jsnum" where
  "js_add a b = (case a of None \<Rightarrow> None
                 | Some m \<Rightarrow> (case b of None \<Rightarrow> None | Some n \<Rightarrow> Some (m + n)))"

text \<open>\<^verbatim>\<open>a ^ b\<close>: the operands go through ToInt32, which maps \<^verbatim>\<open>undefined\<close> to 0.\<close>

definition to_int32 :: "jsnum \<Rightarrow> nat" where
  "to_int32 a = (case a of None \<Rightarrow> 0 | Some n \<Rightarrow> n)"

definition js_xor :: "jsnum \<Rightarrow> jsnum \<Rightarrow> nat" where
  "js_xor a b = to_int32 a XOR to_int32 b"

datatype error =
    ThresholdExceedsShares
  | ThresholdTooSmall
  | TooManyShares
  | DivisionByZero
  | NeedAtLeast2Shares

text \<open>The three messages that the spec groups under \<^verbatim>\<open>InvalidThreshold\<close>.\<close>

definition InvalidThreshold :: "error \<Rightarrow> bool" where
  "InvalidThreshold e \<longleftrightarrow> e = ThresholdExceedsShares \<or> e = ThresholdTooSmall \<or> e = TooManyShares"

section \<open>GF(256) lookup tables (lang.js, initTables)\<close>

text \<open>
  One round of the first loop computes the next power of the generator:
  \<^verbatim>\<open>x = x ^ (x << 1); if (x >= 256) x ^= 0x11b;\<close>
\<close>

definition next_x :: "nat \<Rightarrow> nat" where
  "next_x x = (let x1 = x XOR push_bit 1 x in if x1 \<ge> 256 then x1 XOR 0x11b else x1)"

text \<open>
  \<^verbatim>\<open>for (let i = 0; i < 255; i++) { EXP_TABLE[i] = x; LOG_TABLE[x] = i; ... }\<close>
  The state is the pair of tables; a store outside a typed array is ignored, as
  a list update out of range is.
\<close>

function initTables_loop1 :: "nat \<Rightarrow> nat \<Rightarrow> byte list \<times> byte list \<Rightarrow> byte list \<times> byte list" where
  "initTables_loop1 i x T =
     (if i < 255
      then initTables_loop1 (i + 1) (next_x x) ((fst T)[i := of_nat x], (snd T)[x := of_nat i])
      else T)"
  by pat_completeness auto
termination
  by (relation "measure (\<lambda>(i, x, T). 255 - i)") auto

declare initTables_loop1.simps [simp del]

text \<open>\<^verbatim>\<open>for (let i = 255; i < 512; i++) EXP_TABLE[i] = EXP_TABLE[i - 255];\<close>\<close>

function initTables_loop2 :: "nat \<Rightarrow> byte list \<Rightarrow> byte list" where
  "initTables_loop2 i E =
     (if i < 512 then initTables_loop2 (i + 1) (E[i := E ! (i - 255)]) else E)"
  by pat_completeness auto
termination
  by (relation "measure (\<lambda>(i, E). 512 - i)") auto

declare initTables_loop2.simps [simp del]

definition initTables :: "byte list \<times> byte list" where
  "initTables =
     (let T = initTables_loop1 0 1 (replicate 512 0, replicate 256 0)
      in (initTables_loop2 255 (fst T), snd T))"

definition EXP_TABLE :: "byte list" where
  "EXP_TABLE = fst initTables"

definition LOG_TABLE :: "byte list" where
  "LOG_TABLE = snd initTables"

section \<open>Field arithmetic (lang.js, gfMul and gfDiv)\<close>

definition gfMul :: "jsnum \<Rightarrow> jsnum \<Rightarrow> jsnum" where
  "gfMul a b =
     (if a = Some 0 \<or> b = Some 0 then Some 0
      else typed_get EXP_TABLE (js_add (typed_get LOG_TABLE a) (typed_get LOG_TABLE b)))"

text \<open>
  \<^verbatim>\<open>(LOG_TABLE[a] - LOG_TABLE[b] + 255) % 255\<close>: the table entries are bytes, so the
  dividend is never negative; it is \<^verbatim>\<open>NaN\<close> when an entry is \<^verbatim>\<open>undefined\<close>.
\<close>

definition log_diff :: "jsnum \<Rightarrow> jsnum \<Rightarrow> jsnum" where
  "log_diff la lb =
     (case la of None \<Rightarrow> None
      | Some m \<Rightarrow> (case lb of None \<Rightarrow> None
                   | Some n \<Rightarrow> Some (nat ((int m - int n + 255) mod 255))))"

definition gfDiv :: "jsnum \<Rightarrow> jsnum \<Rightarrow> error + jsnum" where
  "gfDiv a b =
     (if b = Some 0 then Inl DivisionByZero
      else if a = Some 0 then Inr (Some 0)
      else Inr (typed_get EXP_TABLE (log_diff (typed_get LOG_TABLE a) (typed_get LOG_TABLE b))))"

section \<open>Polynomial evaluation and interpolation\<close>

text \<open>
  Horner's rule from the last coefficient down to \<^verbatim>\<open>coeffs[0]\<close>:
  \<^verbatim>\<open>result = gfMul(result, x) ^ coeffs[i]\<close>.
\<close>

definition evaluatePolynomial :: "byte list \<Rightarrow> nat \<Rightarrow> nat" where
  "evaluatePolynomial coeffs x =
     foldl (\<lambda>result c. js_xor (gfMul (Some result) (Some x)) (Some (unat c))) 0 (rev coeffs)"

text \<open>
  A point is \<^verbatim>\<open>[id, byte]\<close>; the byte is \<^verbatim>\<open>undefined\<close> when the share's data is
  shorter than the first share's. The inner loop over \<open>j\<close> skips \<open>j = i\<close> and
  accumulates the numerator and the denominator.
\<close>

type_synonym point = "nat \<times> jsnum"

definition lagrange_inner_step :: "point list \<Rightarrow> nat \<Rightarrow> jsnum \<times> jsnum \<Rightarrow> nat \<Rightarrow> jsnum \<times> jsnum" where
  "lagrange_inner_step points i nd j =
     (if i = j then nd
      else (gfMul (fst nd) (Some (fst (points ! j))),
            gfMul (snd nd) (Some (fst (points ! i) XOR fst (points ! j)))))"

definition lagrange_inner :: "point list \<Rightarrow> nat \<Rightarrow> jsnum \<times> jsnum" where
  "lagrange_inner points i =
     foldl (lagrange_inner_step points i) (Some 1, Some 1) [0..<length points]"

definition lagrange_step :: "point list \<Rightarrow> error + nat \<Rightarrow> nat \<Rightarrow> error + nat" where
  "lagrange_step points acc i =
     (case acc of
        Inl e \<Rightarrow> Inl e
      | Inr result \<Rightarrow>
          (case gfDiv (Some 1) (snd (lagrange_inner points i)) of
             Inl e \<Rightarrow> Inl e
           | Inr q \<Rightarrow>
               Inr (js_xor (Some result)
                      (gfMul (gfMul (fst (lagrange_inner points i)) q) (snd (points ! i))))))"

definition lagrangeInterpolate :: "point list \<Rightarrow> error + nat" where
  "lagrangeInterpolate points = foldl (lagrange_step points) (Inr 0) [0..<length points]"

section \<open>Splitting and combining (lang.js, split and combine)\<close>

record share =
  share_id :: nat
  threshold :: int
  totalShares :: int
  data :: "byte list"

text \<open>
  \<^verbatim>\<open>crypto.getRandomValues\<close> fills an array of \<open>n\<close> bytes from the random source, which
  is a stream of bytes; the stream moves on by \<open>n\<close>.
\<close>

type_synonym rng = "nat \<Rightarrow> byte"

definition getRandomValues :: "nat \<Rightarrow> rng \<Rightarrow> byte list \<times> rng" where
  "getRandomValues n r = (map r [0..<n], \<lambda>k. r (k + n))"

text \<open>The loop over \<open>shareIdx\<close>: \<^verbatim>\<open>shares[shareIdx].data[byteIdx] = evaluatePolynomial(coeffs, shareIdx + 1)\<close>.\<close>

definition split_store :: "byte list \<Rightarrow> nat \<Rightarrow> share list \<Rightarrow> nat \<Rightarrow> share list" where
  "split_store coeffs byteIdx shares shareIdx =
     shares[shareIdx := (shares ! shareIdx)
       \<lparr>data := (data (shares ! shareIdx))
                  [byteIdx := of_nat (evaluatePolynomial coeffs (shareIdx + 1))]\<rparr>]"

text \<open>
  The loop over \<open>byteIdx\<close>: a fresh coefficient array of \<open>thr\<close> (the threshold) bytes, the secret
  byte at index 0 and random bytes in \<^verbatim>\<open>coeffs.subarray(1)\<close>.
\<close>

definition split_byte :: "byte list \<Rightarrow> nat \<Rightarrow> nat \<Rightarrow> share list \<times> rng \<Rightarrow> nat \<Rightarrow> share list \<times> rng" where
  "split_byte secret numShares thr st byteIdx =
     (let coeffs0 = (replicate thr 0)[0 := secret ! byteIdx];
          rnd = getRandomValues (thr - 1) (snd st);
          coeffs = take 1 coeffs0 @ fst rnd
      in (foldl (split_store coeffs byteIdx) (fst st) [0..<numShares], snd rnd))"

definition split :: "rng \<Rightarrow> byte list \<Rightarrow> int \<Rightarrow> int \<Rightarrow> error + share list" where
  "split r secret numShares thr =
     (if thr > numShares then Inl ThresholdExceedsShares
      else if thr < 2 then Inl ThresholdTooSmall
      else if numShares > 254 then Inl TooManyShares
      else
        let shares = map (\<lambda>i. \<lparr>share_id = i + 1, threshold = thr,
                                 totalShares = numShares,
                                 data = replicate (length secret) 0\<rparr>) [0..<nat numShares]
        in Inr (fst (foldl (split_byte secret (nat numShares) (nat thr))
                       (shares, r) [0..<length secret])))"

text \<open>
  \<^verbatim>\<open>const points = shares.map(s => [s.id, s.data[byteIdx]]);
  secret[byteIdx] = lagrangeInterpolate(points);\<close>
  An exception of the interpolation leaves the loop.
\<close>

definition combine_step :: "share list \<Rightarrow> error + byte list \<Rightarrow> nat \<Rightarrow> error + byte list" where
  "combine_step shares acc byteIdx =
     (case acc of
        Inl e \<Rightarrow> Inl e
      | Inr secret \<Rightarrow>
          (case lagrangeInterpolate
                  (map (\<lambda>s. (share_id s, typed_get (data s) (Some byteIdx))) shares) of
             Inl e \<Rightarrow> Inl e
           | Inr v \<Rightarrow> Inr (secret[byteIdx := of_nat v])))"

definition combine :: "share list \<Rightarrow> error + byte list" where
  "combine shares =
     (if length shares < 2 then Inl NeedAtLeast2Shares
      else
        let secretLength = length (data (shares ! 0))
        in foldl (combine_step shares) (Inr (replicate secretLength 0)) [0..<secretLength])"

section \<open>Check-in tokens (checkin.js) and their helpers (crypto.js)\<close>

text \<open>
  A JavaScript string is a list of characters; the strings of this module that reach
  \<^verbatim>\<open>btoa\<close> are Latin-1. The functions of the platform that the module calls are the
  fields of a record: \<^verbatim>\<open>atob\<close> and \<^verbatim>\<open>JSON.parse\<close> can throw (\<open>Inl\<close> the message),
  \<open>digest\<close> is \<^verbatim>\<open>crypto.subtle.digest('SHA-256', _)\<close> of the encoded string,
  \<open>Date_parse\<close> is \<^verbatim>\<open>new Date(v).getTime()\<close> with \<open>None\<close> for \<^verbatim>\<open>NaN\<close>.
\<close>

datatype json =
    JNull
  | JBool bool
  | JNum real
  | JStr string
  | JArr "json list"
  | JObj "(string \<times> json) list"

record platform =
  atob :: "string \<Rightarrow> string + string"
  btoa :: "string \<Rightarrow> string"
  JSON_parse :: "string \<Rightarrow> string + json"
  digest :: "string \<Rightarrow> byte list"
  Date_parse :: "json option \<Rightarrow> int option"
  toISOString :: "int \<Rightarrow> string"
  toUpperCase :: "string \<Rightarrow> string"
  null_property_message :: string

text \<open>\<^verbatim>\<open>b.toString(16).padStart(2, '0')\<close> for a byte.\<close>

definition hex_digit :: "nat \<Rightarrow> char" where
  "hex_digit k = ''0123456789abcdef'' ! k"

definition hex2 :: "byte \<Rightarrow> string" where
  "hex2 b = [hex_digit (unat b div 16), hex_digit (unat b mod 16)]"

definition sha256 :: "platform \<Rightarrow> string \<Rightarrow> string" where
  "sha256 P s = concat (map hex2 (digest P s))"

definition generateId :: "nat \<Rightarrow> rng \<Rightarrow> string \<times> rng" where
  "generateId len r =
     (concat (map hex2 (fst (getRandomValues len r))), snd (getRandomValues len r))"

text \<open>
  \<^verbatim>\<open>JSON.stringify\<close> of an object whose values are strings: the members in insertion
  order, no white space, every string quoted by the rule of the language standard.
\<close>

definition json_quote_char :: "char \<Rightarrow> string" where
  "json_quote_char c =
     (let k = (of_char c :: nat) in
      if k = 0x22 then [CHR 0x5C, CHR 0x22]
      else if k = 0x5C then [CHR 0x5C, CHR 0x5C]
      else if k = 0x08 then [CHR 0x5C, CHR ''b'']
      else if k = 0x0C then [CHR 0x5C, CHR ''f'']
      else if k = 0x0A then [CHR 0x5C, CHR ''n'']
      else if k = 0x0D then [CHR 0x5C, CHR ''r'']
      else if k = 0x09 then [CHR 0x5C, CHR ''t'']
      else if k < 0x20 then [CHR 0x5C, CHR ''u'', CHR ''0'', CHR ''0''] @ hex2 (of_nat k)
      else [c])"

definition json_quote :: "string \<Rightarrow> string" where
  "json_quote s = CHR 0x22 # concat (map json_quote_char s) @ [CHR 0x22]"

fun stringify_members :: "(string \<times> string) list \<Rightarrow> string" where
  "stringify_members [] = []"
| "stringify_members [(k, v)] = json_quote k @ '':'' @ json_quote v"
| "stringify_members ((k, v) # m # ms) =
     json_quote k @ '':'' @ json_quote v @ '','' @ stringify_members (m # ms)"

definition JSON_stringify :: "(string \<times> string) list \<Rightarrow> string" where
  "JSON_stringify members = ''{'' @ stringify_members members @ ''}''"

text \<open>The same object as \<^verbatim>\<open>JSON.parse\<close> returns it.\<close>

definition json_object :: "(string \<times> string) list \<Rightarrow> json" where
  "json_object members = JObj (map (\<lambda>m. (fst m, JStr (snd m))) members)"

text \<open>
  \<^verbatim>\<open>payload.key\<close> on a parsed value: a \<^verbatim>\<open>TypeError\<close> on \<^verbatim>\<open>null\<close> (\<open>Inl\<close>), the member of
  an object, \<^verbatim>\<open>undefined\<close> (\<open>None\<close>) when the object has no such member or the value
  is a number, a string, a boolean or an array. The parser keeps one member per key.
\<close>

fun get_property :: "platform \<Rightarrow> json \<Rightarrow> string \<Rightarrow> string + json option" where
  "get_property P JNull k = Inl (null_property_message P)"
| "get_property P (JObj members) k = Inr (map_of members k)"
| "get_property P v k = Inr None"

record checkin_token =
  aegis_checkin :: bool
  version :: string
  timestamp :: string
  package :: string
  token :: string
  payload :: string

text \<open>\<^verbatim>\<open>`AEGIS-${token.token.substring(0, 8).toUpperCase()}-${token.timestamp.split('T')[0]}`\<close>\<close>

definition formatTokenDisplay :: "platform \<Rightarrow> checkin_token \<Rightarrow> string" where
  "formatTokenDisplay P tok =
     ''AEGIS-'' @ toUpperCase P (take 8 (token tok)) @ ''-'' @
       takeWhile (\<lambda>c. c \<noteq> CHR ''T'') (timestamp tok)"

text \<open>
  The result of \<open>generateToken\<close>: \<^verbatim>\<open>{ valid: false }\<close>, or
  \<^verbatim>\<open>{ valid: true, isDuress, token, displayCode }\<close>.
\<close>

datatype generated = Rejected | Generated bool checkin_token string

text \<open>
  The clock (\<^verbatim>\<open>new Date()\<close>) is the argument \<open>now\<close>, in milliseconds, and the random
  source is \<open>r\<close>.
\<close>

definition generateToken ::
  "platform \<Rightarrow> int \<Rightarrow> rng \<Rightarrow> string \<Rightarrow> string \<Rightarrow> string \<Rightarrow> string \<Rightarrow> generated" where
  "generateToken P now r passphrase duressPhrase inputPhrase packageId =
     (let isDuress = (inputPhrase = duressPhrase);
          isValid = (inputPhrase = passphrase \<or> isDuress)
      in if \<not> isValid then Rejected
         else
           let ts = toISOString P now;
               nonce = fst (generateId 8 r);
               members = [(''t'', ts), (''n'', nonce), (''p'', packageId),
                          (''_d'', if isDuress then ''1'' else ''0'')];
               tokenString = JSON_stringify members;
               tokenHash = sha256 P tokenString;
               visibleToken = \<lparr>aegis_checkin = True, version = ''1.0.0'', timestamp = ts,
                                 package = packageId, token = tokenHash,
                                 payload = btoa P tokenString\<rparr>
           in Generated isDuress visibleToken (formatTokenDisplay P visibleToken))"

datatype status = OK | DURESS | INVALID

text \<open>
  The result of \<open>verifyToken\<close>: the six fields of the \<^verbatim>\<open>try\<close> block, or
  \<^verbatim>\<open>{ valid: false, status: 'INVALID', error: e.message }\<close> of the \<^verbatim>\<open>catch\<close> block.
  \<^verbatim>\<open>Math.round(ageHours * 10) / 10\<close> is computed on real numbers; it is \<open>None\<close> (\<^verbatim>\<open>NaN\<close>)
  for an invalid date.
\<close>

datatype verified =
    Verified bool bool "json option" "json option" "real option" status
  | Failed string

fun valid_of :: "verified \<Rightarrow> bool" where
  "valid_of (Verified hashValid isDuress ts pkg age st) = hashValid"
| "valid_of (Failed msg) = False"

fun status_of :: "verified \<Rightarrow> status" where
  "status_of (Verified hashValid isDuress ts pkg age st) = st"
| "status_of (Failed msg) = INVALID"

definition round_tenth :: "int \<Rightarrow> int \<Rightarrow> real" where
  "round_tenth now tokenTime =
     of_int \<lfloor>of_int (now - tokenTime) / (1000 * 60 * 60) * 10 + (1 / 2 :: real)\<rfloor> / 10"

definition verifyToken :: "platform \<Rightarrow> int \<Rightarrow> checkin_token \<Rightarrow> verified" where
  "verifyToken P now tokenObj =
     (case atob P (payload tokenObj) of
        Inl msg \<Rightarrow> Failed msg
      | Inr payloadStr \<Rightarrow>
          (case JSON_parse P payloadStr of
             Inl msg \<Rightarrow> Failed msg
           | Inr pl \<Rightarrow>
               let expectedHash = sha256 P payloadStr;
                   hashValid = (expectedHash = token tokenObj)
               in (case get_property P pl ''_d'' of
                     Inl msg \<Rightarrow> Failed msg
                   | Inr marker \<Rightarrow>
                       let isDuress = (marker = Some (JStr ''1''));
                           t = projr (get_property P pl ''t'');
                           tokenTime = Date_parse P t;
                           ageHours = map_option (round_tenth now) tokenTime
                       in Verified hashValid isDuress t (projr (get_property P pl ''p'')) ageHours
                            (if isDuress then DURESS else if hashValid then OK else INVALID))))"

section \<open>Escalation level (checkin.js)\<close>

text \<open>
  \<^verbatim>\<open>new Date(lastCheckinTime)\<close> is a time in milliseconds or an invalid date; the argument
  is \<open>None\<close> when \<^verbatim>\<open>lastCheckinTime\<close> is absent (falsy). Hours are real numbers. The
  quotient \<^verbatim>\<open>elapsed / intervalHours\<close> is infinite or \<^verbatim>\<open>NaN\<close> for the interval 0.
\<close>

datatype jsdate = ValidDate int | InvalidDate



definition elapsedHours :: "int \<Rightarrow> int \<Rightarrow> real" where
  "elapsedHours now lastTime = of_int (now - lastTime) / (1000 * 60 * 60)"


text \<open>\<open>isOverdue\<close>: \<^verbatim>\<open>elapsed > intervalHours\<close>, false for an invalid date.\<close>

definition isOverdue :: "int \<Rightarrow> jsdate option \<Rightarrow> real \<Rightarrow> bool" where
  "isOverdue now lastCheckinTime intervalHours =
     (case lastCheckinTime of
        None \<Rightarrow> True
      | Some InvalidDate \<Rightarrow> False
      | Some (ValidDate lastTime) \<Rightarrow> elapsedHours now lastTime > intervalHours)"

section \<open>The encrypted envelope (crypto.js)\<close>

text \<open>
  The Web Crypto functions that the module calls are the fields of a record over the
  type of keys: key derivation by PBKDF2 with SHA-256 from a passphrase, a salt and an
  iteration count, and AES-GCM encryption and decryption under a key and an
  initialisation vector. Decryption rejects (\<open>None\<close>) when the tag does not verify.
\<close>

record 'k webcrypto =
  pbkdf2 :: "string \<Rightarrow> byte list \<Rightarrow> nat \<Rightarrow> 'k"
  aes_gcm_encrypt :: "'k \<Rightarrow> byte list \<Rightarrow> byte list \<Rightarrow> byte list"
  aes_gcm_decrypt :: "'k \<Rightarrow> byte list \<Rightarrow> byte list \<Rightarrow> byte list option"

datatype crypto_error = OperationError

definition SALT_LENGTH :: nat where
  "SALT_LENGTH = 16"

definition IV_LENGTH :: nat where
  "IV_LENGTH = 12"

definition PBKDF2_ITERATIONS :: nat where
  "PBKDF2_ITERATIONS = 600000"

definition deriveKey :: "'k webcrypto \<Rightarrow> string \<Rightarrow> byte list \<Rightarrow> 'k" where
  "deriveKey W passphrase saltBytes = pbkdf2 W passphrase saltBytes PBKDF2_ITERATIONS"

record envelope =
  salt :: "byte list"
  iv :: "byte list"
  ciphertext :: "byte list"

text \<open>The salt and then the initialisation vector are drawn from the random source.\<close>

definition encrypt :: "'k webcrypto \<Rightarrow> rng \<Rightarrow> byte list \<Rightarrow> string \<Rightarrow> envelope \<times> rng" where
  "encrypt W r plaintext passphrase =
     (let s = getRandomValues SALT_LENGTH r;
          i = getRandomValues IV_LENGTH (snd s);
          key = deriveKey W passphrase (fst s)
      in (\<lparr>salt = fst s, iv = fst i,
           ciphertext = aes_gcm_encrypt W key (fst i) plaintext\<rparr>, snd i))"

text \<open>\<open>decrypt\<close> has no handler: the rejection of \<^verbatim>\<open>crypto.subtle.decrypt\<close> is its only failure.\<close>

definition decrypt :: "'k webcrypto \<Rightarrow> envelope \<Rightarrow> string \<Rightarrow> crypto_error + byte list" where
  "decrypt W encryptedData passphrase =
     (let key = deriveKey W passphrase (salt encryptedData)
      in case aes_gcm_decrypt W key (iv encryptedData) (ciphertext encryptedData) of
           None \<Rightarrow> Inl OperationError
         | Some decrypted \<Rightarrow> Inr decrypted)"

text \<open>\<^verbatim>\<open>[salt:16][iv:12][ciphertext:...]\<close>; \<^verbatim>\<open>slice\<close> stops at the end of the array.\<close>

definition packEncrypted :: "envelope \<Rightarrow> byte list" where
  "packEncrypted e = salt e @ iv e @ ciphertext e"

definition unpackEncrypted :: "byte list \<Rightarrow> envelope" where
  "unpackEncrypted packed =
     \<lparr>salt = take SALT_LENGTH packed,
      iv = take IV_LENGTH (drop SALT_LENGTH packed),
      ciphertext = drop (SALT_LENGTH + IV_LENGTH) packed\<rparr>"

definition encryptFile :: "'k webcrypto \<Rightarrow> rng \<Rightarrow> byte list \<Rightarrow> string \<Rightarrow> byte list \<times> rng" where
  "encryptFile W r fileBuffer passphrase =
     (let encrypted = encrypt W r fileBuffer passphrase
      in (packEncrypted (fst encrypted), snd encrypted))"

definition decryptFile :: "'k webcrypto \<Rightarrow> byte list \<Rightarrow> string \<Rightarrow> crypto_error + byte list" where
  "decryptFile W packedBuffer passphrase = decrypt W (unpackEncrypted packedBuffer) passphrase"


section \<open>The powers of the generator\<close>

text \<open>
  \<open>pw k\<close> is the value of \<open>x\<close> after \<open>k\<close> rounds of the table loop: the \<open>k\<close>-th power
  of the generator 3 under reduction by \<open>0x11b\<close>.
\<close>

definition pw :: "nat \<Rightarrow> nat" where
  "pw k = (next_x ^^ k) 1"

lemma all_less_numeral:
  "(\<forall>i<numeral k. P i) \<longleftrightarrow> P (pred_numeral k) \<and> (\<forall>i<pred_numeral k. P i)"
  by (simp add: numeral_eq_Suc All_less_Suc)

lemma next_x_byte_all: "\<forall>x<256. next_x x < 256"
  by (simp add: all_less_numeral next_x_def)

lemma next_x_less: "x < 256 \<Longrightarrow> next_x x < 256"
  using next_x_byte_all by blast

lemma pw_0: "pw 0 = 1"
  by (simp add: pw_def)

lemma pw_Suc: "pw (Suc k) = next_x (pw k)"
  by (simp add: pw_def)

lemma pw_less: "pw k < 256"
  by (induction k) (simp_all add: pw_0 pw_Suc next_x_less)

lemma pw_add: "pw (a + b) = (next_x ^^ a) (pw b)"
  by (simp add: pw_def funpow_add)

fun orbit :: "nat \<Rightarrow> nat \<Rightarrow> nat list" where
  "orbit 0 x = []"
| "orbit (Suc n) x = x # orbit n (next_x x)"

lemma orbit_numeral: "orbit (numeral k) x = x # orbit (pred_numeral k) (next_x x)"
  by (simp add: numeral_eq_Suc)

lemma length_orbit: "length (orbit n x) = n"
  by (induction n arbitrary: x) simp_all

lemma orbit_nth: "k < n \<Longrightarrow> orbit n x ! k = (next_x ^^ k) x"
proof (induction n arbitrary: x k)
  case 0
  then show ?case by simp
next
  case (Suc n)
  then show ?case by (cases k) (simp_all add: funpow_swap1)
qed

definition generator_powers :: "nat list" where
  "generator_powers = [1, 3, 5, 15, 17, 51, 85, 255, 26, 46, 114, 150, 161, 248, 19, 53, 95, 225, 56, 72,
     216, 115, 149, 164, 247, 2, 6, 10, 30, 34, 102, 170, 229, 52, 92, 228, 55, 89, 235,
     38, 106, 190, 217, 112, 144, 171, 230, 49, 83, 245, 4, 12, 20, 60, 68, 204, 79,
     209, 104, 184, 211, 110, 178, 205, 76, 212, 103, 169, 224, 59, 77, 215, 98, 166,
     241, 8, 24, 40, 120, 136, 131, 158, 185, 208, 107, 189, 220, 127, 129, 152, 179,
     206, 73, 219, 118, 154, 181, 196, 87, 249, 16, 48, 80, 240, 11, 29, 39, 105, 187,
     214, 97, 163, 254, 25, 43, 125, 135, 146, 173, 236, 47, 113, 147, 174, 233, 32, 96,
     160, 251, 22, 58, 78, 210, 109, 183, 194, 93, 231, 50, 86, 250, 21, 63, 65, 195,
     94, 226, 61, 71, 201, 64, 192, 91, 237, 44, 116, 156, 191, 218, 117, 159, 186, 213,
     100, 172, 239, 42, 126, 130, 157, 188, 223, 122, 142, 137, 128, 155, 182, 193, 88,
     232, 35, 101, 175, 234, 37, 111, 177, 200, 67, 197, 84, 252, 31, 33, 99, 165, 244,
     7, 9, 27, 45, 119, 153, 176, 203, 70, 202, 69, 207, 74, 222, 121, 139, 134, 145,
     168, 227, 62, 66, 198, 81, 243, 14, 18, 54, 90, 238, 41, 123, 141, 140, 143, 138,
     133, 148, 167, 242, 13, 23, 57, 75, 221, 124, 132, 151, 162, 253, 28, 36, 108, 180,
     199, 82, 246]"

lemma orbit_256: "orbit 256 1 = generator_powers @ [1]"
  unfolding generator_powers_def by (simp add: orbit_numeral next_x_def)

lemma distinct_generator_powers: "distinct generator_powers"
  unfolding generator_powers_def by simp

lemma zero_notin_generator_powers: "0 \<notin> set generator_powers"
  unfolding generator_powers_def by simp

lemma length_generator_powers: "length generator_powers = 255"
  unfolding generator_powers_def by simp

lemma pw_nth: "k < 255 \<Longrightarrow> pw k = generator_powers ! k"
proof -
  assume k: "k < 255"
  have "pw k = orbit 256 1 ! k"
    using k by (simp add: orbit_nth pw_def)
  also have "\<dots> = generator_powers ! k"
    unfolding orbit_256 using k by (simp add: nth_append length_generator_powers)
  finally show ?thesis .
qed

lemma pw_255: "pw 255 = 1"
proof -
  have "pw 255 = orbit 256 1 ! 255"
    by (simp add: orbit_nth pw_def)
  also have "\<dots> = 1"
    unfolding orbit_256 by (simp add: nth_append length_generator_powers)
  finally show ?thesis .
qed

lemma pw_period: "pw (k + 255) = pw k"
  by (simp add: pw_add pw_255) (simp add: pw_def)

lemma pw_mod: "pw (k mod 255) = pw k"
proof (induction k rule: less_induct)
  case (less k)
  show ?case
  proof (cases "k < 255")
    case True
    then show ?thesis by simp
  next
    case False
    then have "pw ((k - 255) mod 255) = pw (k - 255)"
      using less by simp
    moreover have "(k - 255) mod 255 = k mod 255"
      using False by (simp add: le_mod_geq)
    moreover have "pw (k - 255 + 255) = pw (k - 255)"
      by (rule pw_period)
    ultimately show ?thesis using False by simp
  qed
qed

lemma pw_inj: "i < 255 \<Longrightarrow> j < 255 \<Longrightarrow> pw i = pw j \<Longrightarrow> i = j"
  using distinct_generator_powers
  by (simp add: pw_nth nth_eq_iff_index_eq length_generator_powers)

lemma pw_nonzero: "pw k \<noteq> 0"
proof -
  have "pw (k mod 255) \<in> set generator_powers"
    by (simp add: pw_nth length_generator_powers)
  then have "pw k \<in> set generator_powers"
    by (simp only: pw_mod)
  then show ?thesis
    using zero_notin_generator_powers by metis
qed

lemma pw_image: "pw ` {..<255} = {1..<256}"
proof (rule card_subset_eq)
  show "finite {1..<256::nat}" by simp
  show "pw ` {..<255} \<subseteq> {1..<256}"
    using pw_less pw_nonzero by (auto simp: Suc_le_eq)
  have "inj_on pw {..<255}"
    by (auto simp: inj_on_def dest: pw_inj)
  then show "card (pw ` {..<255}) = card {1..<256::nat}"
    by (simp add: card_image)
qed

lemma pw_surj: "0 < a \<Longrightarrow> a < 256 \<Longrightarrow> \<exists>k<255. pw k = a"
proof -
  assume "0 < a" "a < 256"
  then have "a \<in> pw ` {..<255}"
    unfolding pw_image by simp
  then show ?thesis by auto
qed

section \<open>What the table loops compute\<close>

lemma loop1_length:
  "length (fst (initTables_loop1 i x T)) = length (fst T) \<and>
   length (snd (initTables_loop1 i x T)) = length (snd T)"
proof (induction i x T rule: initTables_loop1.induct)
  case (1 i x T)
  show ?case
  proof (cases "i < 255")
    case True
    then show ?thesis
      using "1.IH" by (subst (1 2) initTables_loop1.simps) simp
  next
    case False
    then show ?thesis by (subst (1 2) initTables_loop1.simps) simp
  qed
qed

lemma loop1_fst:
  "k < length (fst T) \<Longrightarrow>
   fst (initTables_loop1 i x T) ! k =
     (if i \<le> k \<and> k < 255 then of_nat ((next_x ^^ (k - i)) x) else fst T ! k)"
proof (induction i x T rule: initTables_loop1.induct)
  case (1 i x T)
  show ?case
  proof (cases "i < 255")
    case True
    have step: "fst (initTables_loop1 i x T) =
        fst (initTables_loop1 (i + 1) (next_x x) ((fst T)[i := of_nat x], (snd T)[x := of_nat i]))"
      using True by (subst initTables_loop1.simps) simp
    have IH: "fst (initTables_loop1 (i + 1) (next_x x) ((fst T)[i := of_nat x], (snd T)[x := of_nat i])) ! k =
        (if Suc i \<le> k \<and> k < 255 then of_nat ((next_x ^^ (k - Suc i)) (next_x x))
         else (fst T)[i := of_nat x] ! k)"
      using "1.IH" [OF True] "1.prems" by simp
    show ?thesis
    proof (cases "Suc i \<le> k")
      case True
      then have "k - i = Suc (k - Suc i)" by simp
      then have "(next_x ^^ (k - i)) x = (next_x ^^ (k - Suc i)) (next_x x)"
        by (simp add: funpow_swap1)
      then show ?thesis
        using True "1.prems" unfolding step IH by simp
    next
      case False
      then show ?thesis
        using "1.prems" \<open>i < 255\<close> unfolding step IH by (cases "k = i") simp_all
    qed
  next
    case False
    then show ?thesis by (subst initTables_loop1.simps) auto
  qed
qed

lemma loop1_snd_untouched:
  "(\<And>k. i \<le> k \<Longrightarrow> k < 255 \<Longrightarrow> (next_x ^^ (k - i)) x \<noteq> a) \<Longrightarrow>
   snd (initTables_loop1 i x T) ! a = snd T ! a"
proof (induction i x T rule: initTables_loop1.induct)
  case (1 i x T)
  show ?case
  proof (cases "i < 255")
    case True
    have step: "snd (initTables_loop1 i x T) =
        snd (initTables_loop1 (i + 1) (next_x x) ((fst T)[i := of_nat x], (snd T)[x := of_nat i]))"
      using True by (subst initTables_loop1.simps) simp
    have "x \<noteq> a"
      using "1.prems" [of i] True by simp
    moreover have "snd (initTables_loop1 (i + 1) (next_x x) ((fst T)[i := of_nat x], (snd T)[x := of_nat i])) ! a =
        snd ((fst T)[i := of_nat x], (snd T)[x := of_nat i]) ! a"
    proof (rule "1.IH" [OF True])
      fix k assume k: "i + 1 \<le> k" "k < 255"
      then have "k - i = Suc (k - (i + 1))" by simp
      then have "(next_x ^^ (k - (i + 1))) (next_x x) = (next_x ^^ (k - i)) x"
        by (simp add: funpow_swap1)
      then show "(next_x ^^ (k - (i + 1))) (next_x x) \<noteq> a"
        using "1.prems" [of k] k by simp
    qed
    ultimately show ?thesis by (simp add: step)
  next
    case False
    then show ?thesis by (subst initTables_loop1.simps) simp
  qed
qed

lemma loop1_snd:
  "i \<le> j \<Longrightarrow> j < 255 \<Longrightarrow> (next_x ^^ (j - i)) x < length (snd T) \<Longrightarrow>
   (\<And>k. j < k \<Longrightarrow> k < 255 \<Longrightarrow> (next_x ^^ (k - i)) x \<noteq> (next_x ^^ (j - i)) x) \<Longrightarrow>
   snd (initTables_loop1 i x T) ! ((next_x ^^ (j - i)) x) = of_nat j"
proof (induction i x T rule: initTables_loop1.induct)
  case (1 i x T)
  have i: "i < 255" using "1.prems" by simp
  have step: "snd (initTables_loop1 i x T) =
      snd (initTables_loop1 (i + 1) (next_x x) ((fst T)[i := of_nat x], (snd T)[x := of_nat i]))"
    using i by (subst initTables_loop1.simps) simp
  have shift: "(next_x ^^ (k - Suc i)) (next_x x) = (next_x ^^ (k - i)) x" if "Suc i \<le> k" for k
  proof -
    from that have "k - i = Suc (k - Suc i)" by simp
    then show ?thesis by (simp add: funpow_swap1)
  qed
  show ?case
  proof (cases "j = i")
    case True
    have "snd (initTables_loop1 (i + 1) (next_x x) ((fst T)[i := of_nat x], (snd T)[x := of_nat i])) ! x =
        snd ((fst T)[i := of_nat x], (snd T)[x := of_nat i]) ! x"
    proof (rule loop1_snd_untouched)
      fix k assume k: "i + 1 \<le> k" "k < 255"
      then show "(next_x ^^ (k - (i + 1))) (next_x x) \<noteq> x"
        using "1.prems"(4) [of k] True shift [of k] by simp
    qed
    then show ?thesis
      using True "1.prems"(3) by (simp add: step)
  next
    case False
    then have j: "Suc i \<le> j" using "1.prems" by simp
    have "snd (initTables_loop1 (i + 1) (next_x x) ((fst T)[i := of_nat x], (snd T)[x := of_nat i])) !
          ((next_x ^^ (j - (i + 1))) (next_x x)) = of_nat j"
    proof (rule "1.IH" [OF i])
      show "i + 1 \<le> j" using j by simp
      show "j < 255" by fact
      show "(next_x ^^ (j - (i + 1))) (next_x x) < length (snd ((fst T)[i := of_nat x], (snd T)[x := of_nat i]))"
        using "1.prems"(3) shift [OF j] by simp
      fix k assume k: "j < k" "k < 255"
      then show "(next_x ^^ (k - (i + 1))) (next_x x) \<noteq> (next_x ^^ (j - (i + 1))) (next_x x)"
        using "1.prems"(4) [of k] shift [of k] shift [OF j] j by simp
    qed
    then show ?thesis
      using shift [OF j] by (simp add: step)
  qed
qed

lemma loop2_length: "length (initTables_loop2 i E) = length E"
proof (induction i E rule: initTables_loop2.induct)
  case (1 i E)
  show ?case
  proof (cases "i < 512")
    case True
    then show ?thesis using "1.IH" by (subst initTables_loop2.simps) simp
  next
    case False
    then show ?thesis by (subst initTables_loop2.simps) simp
  qed
qed

lemma loop2_low: "k < i \<Longrightarrow> initTables_loop2 i E ! k = E ! k"
proof (induction i E rule: initTables_loop2.induct)
  case (1 i E)
  show ?case
  proof (cases "i < 512")
    case True
    then show ?thesis
      using "1.IH" "1.prems" by (subst initTables_loop2.simps) simp
  next
    case False
    then show ?thesis by (subst initTables_loop2.simps) simp
  qed
qed

lemma loop2_high:
  "length E = 512 \<Longrightarrow> 255 \<le> i \<Longrightarrow>
   (\<And>k. 255 \<le> k \<Longrightarrow> k < i \<Longrightarrow> E ! k = E ! (k - 255)) \<Longrightarrow>
   255 \<le> k \<Longrightarrow> k < 512 \<Longrightarrow>
   initTables_loop2 i E ! k = initTables_loop2 i E ! (k - 255)"
proof (induction i E rule: initTables_loop2.induct)
  case (1 i E)
  show ?case
  proof (cases "i < 512")
    case True
    have step: "initTables_loop2 i E = initTables_loop2 (i + 1) (E[i := E ! (i - 255)])"
      using True by (subst initTables_loop2.simps) simp
    have "initTables_loop2 (i + 1) (E[i := E ! (i - 255)]) ! k =
          initTables_loop2 (i + 1) (E[i := E ! (i - 255)]) ! (k - 255)"
    proof (rule "1.IH" [OF True])
      show "length (E[i := E ! (i - 255)]) = 512" using "1.prems" by simp
      show "255 \<le> i + 1" using "1.prems" by simp
      show "255 \<le> k" "k < 512" by fact+
      fix k' assume k': "255 \<le> k'" "k' < i + 1"
      show "E[i := E ! (i - 255)] ! k' = E[i := E ! (i - 255)] ! (k' - 255)"
      proof (cases "k' = i")
        case True
        then show ?thesis using "1.prems" \<open>i < 512\<close> by simp
      next
        case False
        then have "k' < i" using k' by simp
        then show ?thesis using "1.prems"(3) [of k'] k' by simp
      qed
    qed
    then show ?thesis by (simp add: step)
  next
    case False
    then have "initTables_loop2 i E = E" by (subst initTables_loop2.simps) simp
    then show ?thesis using "1.prems" False by simp
  qed
qed

lemma length_EXP_TABLE: "length EXP_TABLE = 512"
  by (simp add: EXP_TABLE_def initTables_def Let_def loop2_length loop1_length)

lemma length_LOG_TABLE: "length LOG_TABLE = 256"
  by (simp add: LOG_TABLE_def initTables_def Let_def loop1_length)

lemma EXP_TABLE_low: "k < 255 \<Longrightarrow> EXP_TABLE ! k = of_nat (pw k)"
  by (simp add: EXP_TABLE_def initTables_def Let_def loop2_low loop1_fst pw_def)

lemma EXP_TABLE_high: "255 \<le> k \<Longrightarrow> k < 512 \<Longrightarrow> EXP_TABLE ! k = EXP_TABLE ! (k - 255)"
  unfolding EXP_TABLE_def initTables_def Let_def fst_conv
  by (rule loop2_high) (simp_all add: loop1_length)

lemma EXP_TABLE_nth: "k < 512 \<Longrightarrow> EXP_TABLE ! k = of_nat (pw k)"
proof (induction k rule: less_induct)
  case (less k)
  show ?case
  proof (cases "k < 255")
    case True
    then show ?thesis by (rule EXP_TABLE_low)
  next
    case False
    then have "EXP_TABLE ! k = EXP_TABLE ! (k - 255)"
      using less.prems by (simp add: EXP_TABLE_high)
    also have "\<dots> = of_nat (pw (k - 255))"
      using less False by simp
    also have "pw (k - 255) = pw (k - 255 + 255)"
      by (simp only: pw_period)
    finally show ?thesis using False by simp
  qed
qed

lemma LOG_TABLE_pw: "k < 255 \<Longrightarrow> LOG_TABLE ! pw k = of_nat k"
proof -
  assume k: "k < 255"
  have "snd (initTables_loop1 0 1 (replicate 512 0, replicate 256 0)) ! ((next_x ^^ (k - 0)) 1) = of_nat k"
  proof (rule loop1_snd)
    show "0 \<le> k" by simp
    show "k < 255" by fact
    show "(next_x ^^ (k - 0)) 1 < length (snd (replicate 512 (0::byte), replicate 256 (0::byte)))"
      using pw_less [of k] by (simp add: pw_def)
    fix k' assume "k < k'" "k' < 255"
    then show "(next_x ^^ (k' - 0)) 1 \<noteq> (next_x ^^ (k - 0)) 1"
      using pw_inj [of k' k] k by (auto simp: pw_def)
  qed
  then show ?thesis
    by (simp add: LOG_TABLE_def initTables_def Let_def pw_def)
qed

lemma unat_of_nat_byte: "n < 256 \<Longrightarrow> unat (of_nat n :: byte) = n"
  by (simp add: unat_of_nat)

lemma typed_get_EXP: "k < 512 \<Longrightarrow> typed_get EXP_TABLE (Some k) = Some (pw k)"
  by (simp add: typed_get_def length_EXP_TABLE EXP_TABLE_nth unat_of_nat_byte pw_less)

lemma typed_get_LOG: "k < 255 \<Longrightarrow> typed_get LOG_TABLE (Some (pw k)) = Some k"
  by (simp add: typed_get_def length_LOG_TABLE LOG_TABLE_pw unat_of_nat_byte pw_less)

section \<open>Multiplication and division on bytes\<close>

text \<open>
  \<open>dlog\<close> reads the logarithm table; \<open>gmul\<close> and \<open>ginv\<close> are what \<open>gfMul\<close> and
  \<open>gfDiv(1, _)\<close> return on bytes.
\<close>

definition dlog :: "nat \<Rightarrow> nat" where
  "dlog a = unat (LOG_TABLE ! a)"

definition gmul :: "nat \<Rightarrow> nat \<Rightarrow> nat" where
  "gmul a b = (if a = 0 \<or> b = 0 then 0 else pw (dlog a + dlog b))"

definition ginv :: "nat \<Rightarrow> nat" where
  "ginv a = (if a = 0 then 0 else pw (255 - dlog a))"

lemma dlog_pw: "k < 255 \<Longrightarrow> dlog (pw k) = k"
  by (simp add: dlog_def LOG_TABLE_pw unat_of_nat_byte)

lemma dlog_pw_mod: "dlog (pw k) = k mod 255"
  using dlog_pw [of "k mod 255"] by (simp add: pw_mod)

lemma pw_dlog: "0 < a \<Longrightarrow> a < 256 \<Longrightarrow> pw (dlog a) = a"
  using pw_surj [of a] by (auto simp: dlog_pw)

lemma dlog_less: "0 < a \<Longrightarrow> a < 256 \<Longrightarrow> dlog a < 255"
  using pw_surj [of a] by (auto simp: dlog_pw)

lemma dlog_1: "dlog 1 = 0"
  using dlog_pw [of 0] by (simp add: pw_0)

lemma dlog_Suc_0: "dlog (Suc 0) = 0"
  using dlog_1 by simp

lemma typed_get_LOG_byte: "a < 256 \<Longrightarrow> typed_get LOG_TABLE (Some a) = Some (dlog a)"
  by (simp add: typed_get_def length_LOG_TABLE dlog_def)

lemma typed_get_LOG_large: "256 \<le> a \<Longrightarrow> typed_get LOG_TABLE (Some a) = None"
  by (simp add: typed_get_def length_LOG_TABLE)

lemma gfMul_bytes: "a < 256 \<Longrightarrow> b < 256 \<Longrightarrow> gfMul (Some a) (Some b) = Some (gmul a b)"
proof -
  assume ab: "a < 256" "b < 256"
  show ?thesis
  proof (cases "a = 0 \<or> b = 0")
    case True
    then show ?thesis by (auto simp: gfMul_def gmul_def)
  next
    case False
    then have "dlog a < 255" "dlog b < 255"
      using ab by (simp_all add: dlog_less)
    then have "dlog a + dlog b < 512" by simp
    then show ?thesis
      using False ab by (simp add: gfMul_def gmul_def typed_get_LOG_byte js_add_def typed_get_EXP)
  qed
qed

lemma log_diff_zero: "l < 255 \<Longrightarrow> log_diff (Some 0) (Some l) = Some ((255 - l) mod 255)"
proof -
  assume l: "l < 255"
  then have e: "int 0 - int l + 255 = int (255 - l)" by simp
  have "nat ((int 0 - int l + 255) mod 255) = (255 - l) mod 255"
    unfolding e by (simp add: nat_mod_distrib)
  then show ?thesis
    unfolding log_diff_def by (simp only: option.case)
qed

lemma gfDiv_one_byte:
  "0 < a \<Longrightarrow> a < 256 \<Longrightarrow> gfDiv (Some 1) (Some a) = Inr (Some (ginv a))"
proof -
  assume a: "0 < a" "a < 256"
  then have l: "dlog a < 255" by (simp add: dlog_less)
  have "(255 - dlog a) mod 255 < 512"
    by (rule less_trans [OF mod_less_divisor]) simp_all
  then have "typed_get EXP_TABLE (Some ((255 - dlog a) mod 255)) = Some (pw (255 - dlog a))"
    by (simp only: typed_get_EXP pw_mod)
  then show ?thesis
    using a by (simp add: gfDiv_def typed_get_LOG_byte dlog_Suc_0 log_diff_zero [OF l] ginv_def)
qed

lemma gmul_less: "gmul a b < 256"
  by (simp add: gmul_def pw_less)

lemma ginv_less: "ginv a < 256"
  by (simp add: ginv_def pw_less)

lemma gmul_pw: "gmul (pw i) (pw j) = pw (i + j)"
proof -
  have "pw (i mod 255 + j mod 255) = pw ((i mod 255 + j mod 255) mod 255)"
    by (simp only: pw_mod)
  also have "\<dots> = pw (i + j)"
    by (simp only: mod_add_eq pw_mod)
  finally show ?thesis
    by (simp add: gmul_def pw_nonzero dlog_pw_mod)
qed

lemma gmul_commute: "gmul a b = gmul b a"
  by (auto simp: gmul_def add.commute)

lemma gmul_zero [simp]: "gmul 0 b = 0" "gmul a 0 = 0"
  by (simp_all add: gmul_def)

lemma gmul_eq_0_iff: "gmul a b = 0 \<longleftrightarrow> a = 0 \<or> b = 0"
  by (simp add: gmul_def pw_nonzero)

lemma byte_cases:
  assumes "a < 256"
  obtains "a = 0" | k where "k < 255" "a = pw k"
  using assms pw_surj [of a] by (cases "a = 0") auto

lemma gmul_assoc:
  assumes "a < 256" "b < 256" "c < 256"
  shows "gmul (gmul a b) c = gmul a (gmul b c)"
proof -
  consider "a = 0 \<or> b = 0 \<or> c = 0"
    | i j k where "a = pw i" "b = pw j" "c = pw k"
    using assms by (metis byte_cases)
  then show ?thesis
    by cases (auto simp: gmul_pw add.assoc)
qed

lemma gmul_one: "a < 256 \<Longrightarrow> gmul 1 a = a"
  using gmul_pw [of 0] by (erule_tac byte_cases) (auto simp: pw_0)

lemma gmul_ginv: "0 < a \<Longrightarrow> a < 256 \<Longrightarrow> gmul (ginv a) a = 1"
proof -
  assume a: "0 < a" "a < 256"
  then have l: "dlog a < 255" by (simp add: dlog_less)
  have "gmul (pw (255 - dlog a)) (pw (dlog a)) = pw 255"
    using l by (simp add: gmul_pw)
  then show ?thesis
    using a by (simp add: ginv_def pw_dlog pw_255)
qed

subsection \<open>Multiplication distributes over XOR\<close>

lemma xor_byte_less: "a < 256 \<Longrightarrow> b < 256 \<Longrightarrow> a XOR b < (256::nat)"
proof -
  assume "a < 256" "b < 256"
  then have "take_bit 8 a = a" "take_bit 8 b = b"
    by (simp_all add: take_bit_nat_eq_self_iff)
  then have "a XOR b = take_bit 8 (a XOR b)"
    by (simp add: take_bit_xor)
  also have "\<dots> < 2 ^ 8"
    by (rule take_bit_nat_less_exp)
  finally show ?thesis by simp
qed

lemma next_x_cases_all:
  "\<forall>x<256::nat. (256 \<le> x XOR push_bit 1 x \<longleftrightarrow> bit x 7)"
  by (simp add: all_less_numeral bit_iff_odd)

lemma next_x_alt:
  "x < 256 \<Longrightarrow> next_x x = x XOR push_bit 1 x XOR (if bit x 7 then 0x11b else 0)"
  using next_x_cases_all by (simp add: next_x_def Let_def xor.assoc)

lemma next_x_xor:
  "u < 256 \<Longrightarrow> v < 256 \<Longrightarrow> next_x (u XOR v) = next_x u XOR next_x v"
  by (simp add: next_x_alt xor_byte_less push_bit_xor bit_xor_iff ac_simps)

lemma funpow_next_x_less: "x < 256 \<Longrightarrow> (next_x ^^ n) x < 256"
  by (induction n) (simp_all add: next_x_less)

lemma funpow_next_x_xor:
  "u < 256 \<Longrightarrow> v < 256 \<Longrightarrow> (next_x ^^ n) (u XOR v) = (next_x ^^ n) u XOR (next_x ^^ n) v"
  by (induction n) (simp_all add: next_x_xor funpow_next_x_less)

lemma funpow_next_x_0: "(next_x ^^ n) 0 = 0"
  by (induction n) (simp_all add: next_x_def)

lemma gmul_funpow: "b < 256 \<Longrightarrow> gmul (pw i) b = (next_x ^^ i) b"
proof (erule byte_cases)
  show "b = 0 \<Longrightarrow> gmul (pw i) b = (next_x ^^ i) b"
    by (simp add: funpow_next_x_0)
next
  fix k assume "b = pw k"
  then show "gmul (pw i) b = (next_x ^^ i) b"
    by (simp add: gmul_pw pw_add)
qed

lemma gmul_distrib:
  assumes "a < 256" "b < 256" "c < 256"
  shows "gmul a (b XOR c) = gmul a b XOR gmul a c"
proof (rule byte_cases [OF assms(1)])
  show "a = 0 \<Longrightarrow> ?thesis" by simp
next
  fix k assume "a = pw k"
  then show ?thesis
    using assms by (simp add: gmul_funpow xor_byte_less funpow_next_x_xor)
qed

section \<open>Interpolation at 0 in a field\<close>

text \<open>
  Horner evaluation of a coefficient list, the Lagrange weight of a node at 0, and the
  fact that the weighted sum of the values of a polynomial of degree below the number
  of distinct nodes is its constant term.
\<close>

primrec horner :: "'a::field list \<Rightarrow> 'a \<Rightarrow> 'a" where
  "horner [] x = 0"
| "horner (a # c) x = a + x * horner c x"

definition lag_weight :: "'a::field list \<Rightarrow> 'a \<Rightarrow> 'a" where
  "lag_weight xs v = (\<Prod>u\<leftarrow>filter (\<lambda>u. u \<noteq> v) xs. u / (u - v))"

primrec synth_div :: "'a::field list \<Rightarrow> 'a \<Rightarrow> 'a list" where
  "synth_div [] x = []"
| "synth_div (a # c) x = (if c = [] then [] else horner c x # synth_div c x)"

lemma length_synth_div: "length (synth_div c x) = length c - 1"
  by (induction c) auto

lemma horner_synth_div: "horner c v = horner c x + (v - x) * horner (synth_div c x) v"
proof (induction c)
  case Nil
  then show ?case by simp
next
  case (Cons a c)
  show ?case
  proof (cases "c = []")
    case True
    then show ?thesis by simp
  next
    case False
    have "horner (a # c) v = a + v * (horner c x + (v - x) * horner (synth_div c x) v)"
      using Cons by simp
    also have "\<dots> = horner (a # c) x + (v - x) * horner (synth_div (a # c) x) v"
      using False by (simp add: algebra_simps)
    finally show ?thesis .
  qed
qed

lemma lag_weight_Cons_other:
  "v \<noteq> y \<Longrightarrow> lag_weight (y # ys) v = y / (y - v) * lag_weight ys v"
  by (simp add: lag_weight_def)

lemma lag_weight_Cons_self:
  "y \<notin> set ys \<Longrightarrow> lag_weight (y # ys) y = (\<Prod>u\<leftarrow>ys. u / (u - y))"
proof -
  assume "y \<notin> set ys"
  then have "filter (\<lambda>u. u \<noteq> y) ys = ys"
    by (induction ys) auto
  then show ?thesis by (simp add: lag_weight_def)
qed

lemma sum_list_map_cong:
  "(\<And>v. v \<in> set xs \<Longrightarrow> f v = g v) \<Longrightarrow> (\<Sum>v\<leftarrow>xs. f v) = (\<Sum>v\<leftarrow>xs. g v)"
  by (induction xs) simp_all

lemma partial_fractions_aux:
  fixes p q r x y :: "'a::field"
  assumes "p \<noteq> 0" "q \<noteq> 0" "r \<noteq> 0" "r = q - p"
  shows "y / p * (x / q) = x / r * (y / p) - y / r * (x / q)"
proof -
  have "x / r * (y / p) - y / r * (x / q) = x * y / r * (1 / p - 1 / q)"
    by (simp add: algebra_simps)
  also have "1 / p - 1 / q = r / (p * q)"
    using assms by (simp add: field_simps)
  also have "x * y / r * (r / (p * q)) = y / p * (x / q)"
    using assms(3) by simp
  finally show ?thesis by simp
qed

lemma partial_fractions:
  fixes x y v :: "'a::field"
  assumes "x \<noteq> y" "v \<noteq> y" "v \<noteq> x"
  shows "y / (y - v) * (x / (x - v)) = x / (x - y) * (y / (y - v)) - y / (x - y) * (x / (x - v))"
  by (rule partial_fractions_aux) (use assms in auto)

lemma lag_error_step:
  fixes P Q r x y :: "'a::field"
  assumes "r \<noteq> 0" "r = x - y"
  shows "P * (x / r) + (x / r * (1 - P) - y / r * (1 - Q)) = 1 - y / (- r) * Q"
proof -
  have "P * (x / r) + (x / r * (1 - P) - y / r * (1 - Q)) = (x - y) / r + y / r * Q"
    by (simp add: algebra_simps diff_divide_distrib)
  also have "(x - y) / r = 1"
    using assms by simp
  finally show ?thesis by simp
qed

lemma lag_error:
  "distinct ys \<Longrightarrow> x \<notin> set ys \<Longrightarrow>
   (\<Sum>v\<leftarrow>ys. lag_weight ys v * (x / (x - v))) = 1 - (\<Prod>u\<leftarrow>ys. u / (u - x))"
proof (induction ys arbitrary: x)
  case Nil
  then show ?case by simp
next
  case (Cons y ys)
  have xy: "x \<noteq> y" and xys: "x \<notin> set ys" and yys: "y \<notin> set ys" and d: "distinct ys"
    using Cons.prems by auto
  let ?Px = "\<Prod>u\<leftarrow>ys. u / (u - x)"
  let ?Py = "\<Prod>u\<leftarrow>ys. u / (u - y)"
  have "(\<Sum>v\<leftarrow>ys. lag_weight (y # ys) v * (x / (x - v))) =
        (\<Sum>v\<leftarrow>ys. x / (x - y) * (lag_weight ys v * (y / (y - v))) -
                  y / (x - y) * (lag_weight ys v * (x / (x - v))))"
  proof (rule sum_list_map_cong)
    fix v assume "v \<in> set ys"
    then have "v \<noteq> y" "v \<noteq> x" using xys yys by auto
    then have "y / (y - v) * (x / (x - v)) =
        x / (x - y) * (y / (y - v)) - y / (x - y) * (x / (x - v))"
      using xy by (rule_tac partial_fractions) auto
    then have "lag_weight ys v * (y / (y - v) * (x / (x - v))) =
        lag_weight ys v * (x / (x - y) * (y / (y - v)) - y / (x - y) * (x / (x - v)))"
      by simp
    then show "lag_weight (y # ys) v * (x / (x - v)) =
        x / (x - y) * (lag_weight ys v * (y / (y - v))) -
        y / (x - y) * (lag_weight ys v * (x / (x - v)))"
      using \<open>v \<noteq> y\<close> by (simp add: lag_weight_Cons_other algebra_simps)
  qed
  also have "\<dots> = x / (x - y) * (\<Sum>v\<leftarrow>ys. lag_weight ys v * (y / (y - v))) -
                  y / (x - y) * (\<Sum>v\<leftarrow>ys. lag_weight ys v * (x / (x - v)))"
    by (simp only: sum_list_subtractf sum_list_const_mult)
  also have "\<dots> = x / (x - y) * (1 - ?Py) - y / (x - y) * (1 - ?Px)"
    using Cons.IH [OF d yys] Cons.IH [OF d xys] by simp
  finally have tail: "(\<Sum>v\<leftarrow>ys. lag_weight (y # ys) v * (x / (x - v))) =
      x / (x - y) * (1 - ?Py) - y / (x - y) * (1 - ?Px)" .
  have "(\<Sum>v\<leftarrow>y # ys. lag_weight (y # ys) v * (x / (x - v))) =
      ?Py * (x / (x - y)) + (x / (x - y) * (1 - ?Py) - y / (x - y) * (1 - ?Px))"
    using tail by (simp add: lag_weight_Cons_self [OF yys])
  also have "\<dots> = 1 - y / (- (x - y)) * ?Px"
    by (rule lag_error_step) (use xy in auto)
  finally show ?case by simp
qed

lemma lag_partition_of_unity:
  assumes "distinct xs" and "xs \<noteq> []"
  shows "(\<Sum>v\<leftarrow>xs. lag_weight xs v) = 1"
proof -
  obtain x ys where xs: "xs = x # ys" using assms(2) by (cases xs) auto
  then have d: "distinct ys" and x: "x \<notin> set ys" using assms(1) by auto
  have "(\<Sum>v\<leftarrow>ys. lag_weight (x # ys) v) = (\<Sum>v\<leftarrow>ys. lag_weight ys v * (x / (x - v)))"
  proof (rule sum_list_map_cong)
    fix v assume "v \<in> set ys"
    then have "v \<noteq> x" using x by auto
    then show "lag_weight (x # ys) v = lag_weight ys v * (x / (x - v))"
      by (simp add: lag_weight_Cons_other)
  qed
  then show ?thesis
    using lag_error [OF d x] by (simp add: xs lag_weight_Cons_self [OF x])
qed

theorem lagrange_at_zero:
  "distinct xs \<Longrightarrow> length c \<le> length xs \<Longrightarrow>
   (\<Sum>v\<leftarrow>xs. lag_weight xs v * horner c v) = horner c 0"
proof (induction xs arbitrary: c)
  case Nil
  then show ?case by simp
next
  case (Cons x xs)
  have d: "distinct xs" and x: "x \<notin> set xs" using Cons.prems by auto
  let ?q = "synth_div c x"
  have lq: "length ?q \<le> length xs"
    using Cons.prems by (simp add: length_synth_div)
  have unity: "(\<Sum>v\<leftarrow>x # xs. lag_weight (x # xs) v) = 1"
    by (rule lag_partition_of_unity) (use Cons.prems in simp_all)
  have "(\<Sum>v\<leftarrow>x # xs. lag_weight (x # xs) v * horner c v) =
        (\<Sum>v\<leftarrow>x # xs. horner c x * lag_weight (x # xs) v + lag_weight (x # xs) v * ((v - x) * horner ?q v))"
    by (rule sum_list_map_cong) (subst horner_synth_div [of c _ x], simp add: algebra_simps)
  also have "\<dots> = horner c x * (\<Sum>v\<leftarrow>x # xs. lag_weight (x # xs) v) +
        (\<Sum>v\<leftarrow>x # xs. lag_weight (x # xs) v * ((v - x) * horner ?q v))"
    by (simp only: sum_list_addf sum_list_const_mult)
  also have "(\<Sum>v\<leftarrow>x # xs. lag_weight (x # xs) v * ((v - x) * horner ?q v)) =
        (\<Sum>v\<leftarrow>xs. lag_weight (x # xs) v * ((v - x) * horner ?q v))"
    by simp
  also have "\<dots> = (\<Sum>v\<leftarrow>xs. - x * (lag_weight xs v * horner ?q v))"
  proof (rule sum_list_map_cong)
    fix v assume "v \<in> set xs"
    then have "v \<noteq> x" using x by auto
    then show "lag_weight (x # xs) v * ((v - x) * horner ?q v) = - x * (lag_weight xs v * horner ?q v)"
      by (simp add: lag_weight_Cons_other field_simps)
  qed
  also have "\<dots> = - x * (\<Sum>v\<leftarrow>xs. lag_weight xs v * horner ?q v)"
    by (simp only: sum_list_const_mult)
  also have "(\<Sum>v\<leftarrow>xs. lag_weight xs v * horner ?q v) = horner ?q 0"
    by (rule Cons.IH [OF d lq])
  finally have "(\<Sum>v\<leftarrow>x # xs. lag_weight (x # xs) v * horner c v) =
      horner c x * (\<Sum>v\<leftarrow>x # xs. lag_weight (x # xs) v) + - x * horner ?q 0" .
  then have "(\<Sum>v\<leftarrow>x # xs. lag_weight (x # xs) v * horner c v) =
      horner c x + - x * horner ?q 0"
    unfolding unity by simp
  also have "\<dots> = horner c 0"
    by (subst horner_synth_div [of c 0 x]) simp
  finally show ?case .
qed

section \<open>The bytes as a field\<close>

text \<open>
  Addition is XOR, multiplication is \<open>gmul\<close> and the inverse is \<open>ginv\<close>: the bytes
  with the arithmetic of \<open>gfMul\<close> and \<open>gfDiv\<close>.
\<close>

lemma gmul_distrib_right:
  "a < 256 \<Longrightarrow> b < 256 \<Longrightarrow> c < 256 \<Longrightarrow> gmul (a XOR b) c = gmul a c XOR gmul b c"
  using gmul_distrib [of c a b] by (simp add: gmul_commute)

typedef gf256 = "{n::nat. n < 256}"
  morphisms gf_nat gf_abs
  by (rule exI [of _ 0]) simp

setup_lifting type_definition_gf256

instantiation gf256 :: field
begin

lift_definition zero_gf256 :: gf256 is 0
  by simp

lift_definition one_gf256 :: gf256 is 1
  by simp

lift_definition plus_gf256 :: "gf256 \<Rightarrow> gf256 \<Rightarrow> gf256" is "\<lambda>a b. a XOR b"
  by (rule xor_byte_less)

lift_definition minus_gf256 :: "gf256 \<Rightarrow> gf256 \<Rightarrow> gf256" is "\<lambda>a b. a XOR b"
  by (rule xor_byte_less)

lift_definition uminus_gf256 :: "gf256 \<Rightarrow> gf256" is "\<lambda>a. a" .

lift_definition times_gf256 :: "gf256 \<Rightarrow> gf256 \<Rightarrow> gf256" is gmul
  by (rule gmul_less)

lift_definition inverse_gf256 :: "gf256 \<Rightarrow> gf256" is ginv
  by (rule ginv_less)

lift_definition divide_gf256 :: "gf256 \<Rightarrow> gf256 \<Rightarrow> gf256" is "\<lambda>a b. gmul a (ginv b)"
  by (rule gmul_less)

instance
proof
  fix a b c :: gf256
  show "a + b + c = a + (b + c)"
    by transfer (simp add: xor.assoc)
  show "a + b = b + a"
    by transfer (simp add: xor.commute)
  show "0 + a = a"
    by transfer simp
  show "- a + a = 0"
    by transfer simp
  show "a - b = a + - b"
    by transfer simp
  show "a * b * c = a * (b * c)"
    by transfer (simp add: gmul_assoc)
  show "a * b = b * a"
    by transfer (simp add: gmul_commute)
  show "1 * a = a"
    by transfer (use gmul_one in simp)
  show "(a + b) * c = a * c + b * c"
    by transfer (rule gmul_distrib_right)
  show "(0::gf256) \<noteq> 1"
    by transfer simp
  show "a \<noteq> 0 \<Longrightarrow> inverse a * a = 1"
    by transfer (simp add: gmul_ginv)
  show "a div b = a * inverse b"
    by transfer simp
  show "inverse (0::gf256) = 0"
    by transfer (simp add: ginv_def)
qed

end

lemma gf_nat_less: "gf_nat a < 256"
  using gf_nat [of a] by simp

lemma gf_nat_abs: "n < 256 \<Longrightarrow> gf_nat (gf_abs n) = n"
  by (simp add: gf_abs_inverse)

lemma gf_nat_zero: "gf_nat 0 = 0"
  by (rule zero_gf256.rep_eq)

lemma gf_nat_one: "gf_nat 1 = 1"
  by (rule one_gf256.rep_eq)

lemma gf_nat_eq_0_iff: "gf_nat a = 0 \<longleftrightarrow> a = 0"
  by transfer simp

lemma gf_minus_eq_plus: "a - b = a + (b::gf256)"
  by transfer simp

lemma gfMul_gf: "gfMul (Some (gf_nat a)) (Some (gf_nat b)) = Some (gf_nat (a * b))"
  by (simp add: gfMul_bytes gf_nat_less times_gf256.rep_eq)

lemma gfDiv_one_gf: "a \<noteq> 0 \<Longrightarrow> gfDiv (Some 1) (Some (gf_nat a)) = Inr (Some (gf_nat (inverse a)))"
proof -
  assume "a \<noteq> 0"
  then have "0 < gf_nat a"
    using gf_nat_eq_0_iff [of a] by auto
  then show ?thesis
    by (simp only: gfDiv_one_byte gf_nat_less inverse_gf256.rep_eq)
qed

lemma js_xor_gf: "js_xor (Some (gf_nat a)) (Some (gf_nat b)) = gf_nat (a + b)"
  by (simp add: js_xor_def to_int32_def plus_gf256.rep_eq)

section \<open>The interpolation loops compute in the field\<close>

text \<open>
  On points whose ids and bytes are field elements, \<open>evaluatePolynomial\<close> is Horner
  evaluation and \<open>lagrangeInterpolate\<close> is the weighted sum of the values.
\<close>

definition byte_gf :: "byte \<Rightarrow> gf256" where
  "byte_gf c = gf_abs (unat c)"

lemma unat_byte_less: "unat (c :: byte) < 256"
  using unsigned_less [of c, where 'a = nat] by simp

lemma gf_nat_byte_gf: "gf_nat (byte_gf c) = unat c"
  by (simp add: byte_gf_def gf_nat_abs unat_byte_less)

lemma evaluatePolynomial_gf:
  "evaluatePolynomial coeffs (gf_nat X) = gf_nat (horner (map byte_gf coeffs) X)"
proof (induction coeffs)
  case Nil
  then show ?case by (simp add: evaluatePolynomial_def gf_nat_zero)
next
  case (Cons c coeffs)
  have "evaluatePolynomial (c # coeffs) (gf_nat X) =
      js_xor (gfMul (Some (evaluatePolynomial coeffs (gf_nat X))) (Some (gf_nat X))) (Some (unat c))"
    by (simp add: evaluatePolynomial_def)
  also have "\<dots> = js_xor (Some (gf_nat (horner (map byte_gf coeffs) X * X))) (Some (gf_nat (byte_gf c)))"
    by (simp only: Cons gfMul_gf gf_nat_byte_gf)
  also have "\<dots> = gf_nat (horner (map byte_gf (c # coeffs)) X)"
    by (simp add: js_xor_gf algebra_simps)
  finally show ?case .
qed

definition gf_points :: "(gf256 \<times> gf256) list \<Rightarrow> point list" where
  "gf_points ps = map (\<lambda>p. (gf_nat (fst p), Some (gf_nat (snd p)))) ps"

lemma gf_points_nth:
  "j < length ps \<Longrightarrow> gf_points ps ! j = (gf_nat (fst (ps ! j)), Some (gf_nat (snd (ps ! j))))"
  by (simp add: gf_points_def)

lemma length_gf_points: "length (gf_points ps) = length ps"
  by (simp add: gf_points_def)

lemma xor_gf: "gf_nat a XOR gf_nat b = gf_nat (a - b)"
  by (simp add: minus_gf256.rep_eq)

lemma lagrange_inner_gf_aux:
  assumes "i < length ps"
  shows "n \<le> length ps \<Longrightarrow>
    foldl (lagrange_inner_step (gf_points ps) i) (Some (gf_nat 1), Some (gf_nat 1)) [0..<n] =
      (Some (gf_nat (\<Prod>j\<leftarrow>filter (\<lambda>j. j \<noteq> i) [0..<n]. fst (ps ! j))),
       Some (gf_nat (\<Prod>j\<leftarrow>filter (\<lambda>j. j \<noteq> i) [0..<n]. fst (ps ! i) - fst (ps ! j))))"
proof (induction n)
  case 0
  then show ?case by simp
next
  case (Suc n)
  then have n: "n < length ps" by simp
  show ?case
    using Suc assms n
    by (simp add: lagrange_inner_step_def gf_points_nth gfMul_gf xor_gf)
qed

lemma index_filter_distinct:
  assumes "distinct xs" "i < length xs"
  shows "map ((!) xs) (filter (\<lambda>j. j \<noteq> i) [0..<length xs]) = filter (\<lambda>u. u \<noteq> xs ! i) xs"
proof -
  have "filter (\<lambda>u. u \<noteq> xs ! i) xs = filter (\<lambda>u. u \<noteq> xs ! i) (map ((!) xs) [0..<length xs])"
    by (simp only: map_nth)
  also have "\<dots> = map ((!) xs) (filter (\<lambda>j. xs ! j \<noteq> xs ! i) [0..<length xs])"
    by (simp add: filter_map comp_def)
  also have "filter (\<lambda>j. xs ! j \<noteq> xs ! i) [0..<length xs] = filter (\<lambda>j. j \<noteq> i) [0..<length xs]"
    by (rule filter_cong) (use assms in \<open>auto simp: nth_eq_iff_index_eq\<close>)
  finally show ?thesis by simp
qed

lemma prod_list_divide:
  "(\<Prod>u\<leftarrow>us. u / g u) = prod_list us / (\<Prod>u\<leftarrow>us. (g u :: 'a::field))"
  by (induction us) simp_all

lemma gfDiv_Suc_0_gf:
  "a \<noteq> 0 \<Longrightarrow> gfDiv (Some (Suc 0)) (Some (gf_nat a)) = Inr (Some (gf_nat (inverse a)))"
  using gfDiv_one_gf [of a] by simp

lemma lagrange_inner_gf:
  assumes "distinct (map fst ps)" "i < length ps"
  shows "\<exists>num den. lagrange_inner (gf_points ps) i = (Some (gf_nat num), Some (gf_nat den)) \<and>
           den \<noteq> 0 \<and> num * inverse den = lag_weight (map fst ps) (fst (ps ! i))"
proof -
  let ?xs = "map fst ps"
  let ?J = "filter (\<lambda>j. j \<noteq> i) [0..<length ps]"
  let ?others = "filter (\<lambda>u. u \<noteq> ?xs ! i) ?xs"
  let ?num = "\<Prod>j\<leftarrow>?J. fst (ps ! j)"
  let ?den = "\<Prod>j\<leftarrow>?J. fst (ps ! i) - fst (ps ! j)"
  have eq: "lagrange_inner (gf_points ps) i = (Some (gf_nat ?num), Some (gf_nat ?den))"
    using lagrange_inner_gf_aux [OF assms(2), of "length ps"]
    by (simp add: lagrange_inner_def length_gf_points gf_nat_one)
  have J: "map ((!) ?xs) ?J = ?others"
    using index_filter_distinct [OF assms(1)] assms(2) by simp
  have nth: "map (\<lambda>j. h (fst (ps ! j))) ?J = map h (map ((!) ?xs) ?J)" for h :: "gf256 \<Rightarrow> gf256"
    by (simp add: comp_def)
  have num: "?num = (\<Prod>u\<leftarrow>?others. u)"
    using nth [of "\<lambda>u. u"] by (simp add: J)
  have den: "?den = (\<Prod>u\<leftarrow>?others. u - ?xs ! i)"
  proof -
    have "?den = (\<Prod>j\<leftarrow>?J. fst (ps ! j) - fst (ps ! i))"
      by (simp add: gf_minus_eq_plus add.commute)
    also have "\<dots> = (\<Prod>u\<leftarrow>?others. u - ?xs ! i)"
      using nth [of "\<lambda>u. u - fst (ps ! i)"] assms(2) by (simp add: J)
    finally show ?thesis .
  qed
  have "?den \<noteq> 0"
    unfolding den by (auto simp: prod_list_zero_iff)
  moreover have "?num * inverse ?den = lag_weight ?xs (?xs ! i)"
  proof -
    have "?num * inverse ?den = ?num / ?den"
      by (simp only: divide_inverse)
    also have "\<dots> = lag_weight ?xs (?xs ! i)"
      unfolding num den lag_weight_def by (simp add: prod_list_divide)
    finally show ?thesis .
  qed
  ultimately show ?thesis
    using eq assms(2) by auto
qed

lemma lagrange_step_gf:
  assumes "distinct (map fst ps)" "i < length ps"
  shows "lagrange_step (gf_points ps) (Inr (gf_nat R)) i =
           Inr (gf_nat (R + lag_weight (map fst ps) (fst (ps ! i)) * snd (ps ! i)))"
proof -
  obtain num den where nd: "lagrange_inner (gf_points ps) i = (Some (gf_nat num), Some (gf_nat den))"
    "den \<noteq> 0" "num * inverse den = lag_weight (map fst ps) (fst (ps ! i))"
    using lagrange_inner_gf [OF assms] by blast
  show ?thesis
    using assms(2) nd(2)
    by (simp add: lagrange_step_def nd(1) gfDiv_Suc_0_gf gfMul_gf gf_points_nth js_xor_gf flip: nd(3))
qed

lemma lagrange_outer_gf:
  assumes "distinct (map fst ps)"
  shows "n \<le> length ps \<Longrightarrow>
    foldl (lagrange_step (gf_points ps)) (Inr (gf_nat 0)) [0..<n] =
      Inr (gf_nat (\<Sum>i\<leftarrow>[0..<n]. lag_weight (map fst ps) (fst (ps ! i)) * snd (ps ! i)))"
proof (induction n)
  case 0
  then show ?case by simp
next
  case (Suc n)
  then show ?case
    by (simp add: lagrange_step_gf [OF assms])
qed

lemma lagrangeInterpolate_gf:
  assumes "distinct (map fst ps)"
  shows "lagrangeInterpolate (gf_points ps) =
           Inr (gf_nat (\<Sum>p\<leftarrow>ps. lag_weight (map fst ps) (fst p) * snd p))"
proof -
  have "(\<Sum>i\<leftarrow>[0..<length ps]. lag_weight (map fst ps) (fst (ps ! i)) * snd (ps ! i)) =
        (\<Sum>p\<leftarrow>map ((!) ps) [0..<length ps]. lag_weight (map fst ps) (fst p) * snd p)"
    by (simp add: comp_def)
  also have "\<dots> = (\<Sum>p\<leftarrow>ps. lag_weight (map fst ps) (fst p) * snd p)"
    by (simp only: map_nth)
  finally show ?thesis
    using lagrange_outer_gf [OF assms, of "length ps"]
    by (simp add: lagrangeInterpolate_def length_gf_points gf_nat_zero)
qed

section \<open>The spec's reference arithmetic\<close>

text \<open>
  The spec's words: \<^verbatim>\<open>mul(a,b)\<close> is 0 if either is 0, else
  \<^verbatim>\<open>antilog[(log a + log b) mod 255]\<close>; \<^verbatim>\<open>div(a,b)\<close> fails with DivisionByZero if
  \<open>b = 0\<close>, else \<^verbatim>\<open>antilog[(log a - log b + 255) mod 255]\<close>. The logarithm is \<open>dlog\<close>.
\<close>

definition antilog :: "nat \<Rightarrow> nat" where
  "antilog i = unat (EXP_TABLE ! i)"

definition spec_mul :: "nat \<Rightarrow> nat \<Rightarrow> nat" where
  "spec_mul a b = (if a = 0 \<or> b = 0 then 0 else antilog ((dlog a + dlog b) mod 255))"

definition spec_div :: "nat \<Rightarrow> nat \<Rightarrow> error + nat" where
  "spec_div a b =
     (if b = 0 then Inl DivisionByZero
      else Inr (antilog (nat ((int (dlog a) - int (dlog b) + 255) mod 255))))"

lemma antilog_pw: "k < 512 \<Longrightarrow> antilog k = pw k"
  by (simp add: antilog_def EXP_TABLE_nth unat_of_nat_byte pw_less)

lemma log_diff_bytes:
  "lb \<le> 255 \<Longrightarrow> log_diff (Some la) (Some lb) = Some ((la + 255 - lb) mod 255)"
proof -
  assume l: "lb \<le> 255"
  then have e: "int la - int lb + 255 = int (la + 255 - lb)" by simp
  have "nat ((int la - int lb + 255) mod 255) = (la + 255 - lb) mod 255"
    unfolding e by (simp add: nat_mod_distrib)
  then show ?thesis
    unfolding log_diff_def by (simp only: option.case)
qed

lemma gfDiv_bytes:
  assumes "0 < a" "a < 256" "0 < b" "b < 256"
  shows "gfDiv (Some a) (Some b) = Inr (Some (pw (dlog a + 255 - dlog b)))"
proof -
  have l: "dlog b \<le> 255" using assms by (simp add: dlog_less less_imp_le)
  have "(dlog a + 255 - dlog b) mod 255 < 512"
    by (rule less_trans [OF mod_less_divisor]) simp_all
  then have "typed_get EXP_TABLE (Some ((dlog a + 255 - dlog b) mod 255)) = Some (pw (dlog a + 255 - dlog b))"
    by (simp only: typed_get_EXP pw_mod)
  then show ?thesis
    using assms by (simp add: gfDiv_def typed_get_LOG_byte log_diff_bytes [OF l])
qed

section \<open>Claims about the field arithmetic and the parameter checks\<close>

text \<open>
  Claim C9. On bytes, \<open>gfMul\<close> is the spec's \<open>mul\<close>: 0 if an operand is 0, else the
  antilogarithm of the sum of the logarithms reduced modulo 255; the unreduced index
  into the doubled table reads the same value. For a divisor other than 0, \<open>gfDiv\<close>
  is 0 for the dividend 0 and else the spec's \<open>div\<close>; for the divisor 0 both fail with
  DivisionByZero. The tables are the powers of the generator under reduction by
  \<open>0x11b\<close> and their logarithms.
\<close>

theorem gf_tables_refine_spec:
  assumes "a < 256" and "b < 256"
  shows "gfMul (Some a) (Some b) = Some (spec_mul a b) \<and>
         (a \<noteq> 0 \<and> b \<noteq> 0 \<longrightarrow>
            typed_get EXP_TABLE (Some (dlog a + dlog b)) = Some (antilog ((dlog a + dlog b) mod 255))) \<and>
         gfDiv (Some a) (Some b) =
           (if a = 0 \<and> b \<noteq> 0 then Inr (Some 0) else map_sum id Some (spec_div a b)) \<and>
         (\<forall>i<255. antilog i = (next_x ^^ i) 1 \<and> dlog (antilog i) = i)"
proof (intro conjI impI allI)
  have red: "antilog (k mod 255) = pw k" for k
  proof -
    have "k mod 255 < 512" by (rule less_trans [OF mod_less_divisor]) simp_all
    then show ?thesis by (simp add: antilog_pw pw_mod)
  qed
  show "gfMul (Some a) (Some b) = Some (spec_mul a b)"
    using assms by (simp add: gfMul_bytes gmul_def spec_mul_def red)
  show "typed_get EXP_TABLE (Some (dlog a + dlog b)) = Some (antilog ((dlog a + dlog b) mod 255))"
    if "a \<noteq> 0 \<and> b \<noteq> 0"
  proof -
    have "dlog a < 255" "dlog b < 255" using that assms by (simp_all add: dlog_less)
    then have "dlog a + dlog b < 512" by simp
    then show ?thesis by (simp add: typed_get_EXP red)
  qed
  show "gfDiv (Some a) (Some b) =
      (if a = 0 \<and> b \<noteq> 0 then Inr (Some 0) else map_sum id Some (spec_div a b))"
  proof (cases "b = 0")
    case True
    then show ?thesis by (simp add: gfDiv_def spec_div_def)
  next
    case b: False
    show ?thesis
    proof (cases "a = 0")
      case True
      then show ?thesis using b by (simp add: gfDiv_def)
    next
      case False
      have l: "dlog b \<le> 255" using assms b by (simp add: dlog_less less_imp_le)
      then have e: "int (dlog a) - int (dlog b) + 255 = int (dlog a + 255 - dlog b)" by simp
      have "nat ((int (dlog a) - int (dlog b) + 255) mod 255) = (dlog a + 255 - dlog b) mod 255"
        unfolding e by (simp add: nat_mod_distrib)
      then have "spec_div a b = Inr (pw (dlog a + 255 - dlog b))"
        using b unfolding spec_div_def by (simp only: red if_False)
      then show ?thesis
        using False b assms by (simp add: gfDiv_bytes)
    qed
  qed
  fix i :: nat assume i: "i < 255"
  then show "antilog i = (next_x ^^ i) 1"
    by (simp add: antilog_pw pw_def)
  show "dlog (antilog i) = i"
    using i by (simp add: antilog_pw dlog_pw)
qed

theorem gf_tables_refine_spec_witness:
  "(3::nat) < 256 \<and> (7::nat) < 256 \<and>
   gfMul (Some 3) (Some 7) = Some (spec_mul 3 7) \<and>
   typed_get EXP_TABLE (Some (dlog 3 + dlog 7)) = Some (antilog ((dlog 3 + dlog 7) mod 255)) \<and>
   gfDiv (Some 3) (Some 7) = map_sum id Some (spec_div 3 7) \<and>
   antilog 254 = (next_x ^^ 254) 1 \<and> dlog (antilog 254) = 254"
proof -
  have h: "gfMul (Some 3) (Some 7) = Some (spec_mul 3 7) \<and>
     ((3::nat) \<noteq> 0 \<and> (7::nat) \<noteq> 0 \<longrightarrow>
        typed_get EXP_TABLE (Some (dlog 3 + dlog 7)) = Some (antilog ((dlog 3 + dlog 7) mod 255))) \<and>
     gfDiv (Some 3) (Some 7) =
       (if (3::nat) = 0 \<and> (7::nat) \<noteq> 0 then Inr (Some 0) else map_sum id Some (spec_div 3 7)) \<and>
     (\<forall>i<255. antilog i = (next_x ^^ i) 1 \<and> dlog (antilog i) = i)"
    by (rule gf_tables_refine_spec) simp_all
  then have "\<forall>i<255. antilog i = (next_x ^^ i) 1 \<and> dlog (antilog i) = i"
    by (elim conjE)
  then have "(254::nat) < 255 \<longrightarrow> antilog 254 = (next_x ^^ 254) 1 \<and> dlog (antilog 254) = 254"
    by (rule spec)
  moreover have "(254::nat) < 255" by simp
  ultimately have "antilog 254 = (next_x ^^ 254) 1 \<and> dlog (antilog 254) = 254"
    by (rule mp)
  moreover have "gfMul (Some 3) (Some 7) = Some (spec_mul 3 7)"
    "typed_get EXP_TABLE (Some (dlog 3 + dlog 7)) = Some (antilog ((dlog 3 + dlog 7) mod 255))"
    "gfDiv (Some 3) (Some 7) = map_sum id Some (spec_div 3 7)"
    using h by simp_all
  moreover have "(3::nat) < 256 \<and> (7::nat) < 256" by simp
  ultimately show ?thesis by blast
qed

text \<open>
  Claim C7. \<open>split\<close> fails with one of the InvalidThreshold errors exactly when the
  parameters violate \<open>2 \<le> M \<le> N \<le> 254\<close>, and returns shares exactly when they are
  within those bounds.
\<close>

theorem split_InvalidThreshold_iff:
  "((\<exists>e. split r secret numShares thr = Inl e \<and> InvalidThreshold e) \<longleftrightarrow>
      \<not> (2 \<le> thr \<and> thr \<le> numShares \<and> numShares \<le> 254)) \<and>
   ((\<exists>shares. split r secret numShares thr = Inr shares) \<longleftrightarrow>
      2 \<le> thr \<and> thr \<le> numShares \<and> numShares \<le> 254)"
  by (auto simp: split_def InvalidThreshold_def Let_def)

theorem split_InvalidThreshold_witness:
  "(\<exists>shares. split (\<lambda>k. 7) [65, 66] 3 2 = Inr shares) \<and>
   (\<exists>e. split (\<lambda>k. 7) [65, 66] 2 3 = Inl e \<and> InvalidThreshold e) \<and>
   (\<exists>e. split (\<lambda>k. 7) [65, 66] 3 1 = Inl e \<and> InvalidThreshold e) \<and>
   (\<exists>e. split (\<lambda>k. 7) [65, 66] 255 2 = Inl e \<and> InvalidThreshold e)"
  using split_InvalidThreshold_iff [of "\<lambda>k. 7" "[65, 66]" 3 2]
    split_InvalidThreshold_iff [of "\<lambda>k. 7" "[65, 66]" 2 3]
    split_InvalidThreshold_iff [of "\<lambda>k. 7" "[65, 66]" 3 1]
    split_InvalidThreshold_iff [of "\<lambda>k. 7" "[65, 66]" 255 2]
  by simp

section \<open>What split stores and what combine reads\<close>

text \<open>
  \<open>coeffs_at r secret thr b\<close> is the coefficient array of byte \<open>b\<close>: the secret byte
  and the next \<open>thr - 1\<close> bytes of the random source. \<open>share_after \<dots> nb s\<close> is share
  \<open>s\<close> after \<open>nb\<close> rounds of the loop over the secret's bytes.
\<close>

definition coeffs_at :: "rng \<Rightarrow> byte list \<Rightarrow> nat \<Rightarrow> nat \<Rightarrow> byte list" where
  "coeffs_at r secret thr b = secret ! b # map (\<lambda>k. r (k + b * (thr - 1))) [0..<thr - 1]"

definition share_after :: "rng \<Rightarrow> byte list \<Rightarrow> int \<Rightarrow> int \<Rightarrow> nat \<Rightarrow> nat \<Rightarrow> share" where
  "share_after r secret numShares thr nb s =
     \<lparr>share_id = s + 1, threshold = thr, totalShares = numShares,
      data = map (\<lambda>b. of_nat (evaluatePolynomial (coeffs_at r secret (nat thr) b) (s + 1))) [0..<nb]
             @ replicate (length secret - nb) 0\<rparr>"

lemma split_store_loop:
  "n \<le> length shs \<Longrightarrow>
   foldl (split_store coeffs b) shs [0..<n] =
     map (\<lambda>s. if s < n
               then (shs ! s)\<lparr>data := (data (shs ! s))[b := of_nat (evaluatePolynomial coeffs (s + 1))]\<rparr>
               else shs ! s) [0..<length shs]"
proof (induction n)
  case 0
  then show ?case by (simp add: map_nth)
next
  case (Suc n)
  then have n: "n < length shs" by simp
  show ?case
    using Suc n
    by (auto simp: split_store_def intro!: nth_equalityI simp: nth_list_update less_Suc_eq)
qed

lemma share_after_step:
  assumes "nb < length secret"
  shows "(share_after r secret numShares thr nb s)
           \<lparr>data := (data (share_after r secret numShares thr nb s))
              [nb := of_nat (evaluatePolynomial (coeffs_at r secret (nat thr) nb) (Suc s))]\<rparr> =
         share_after r secret numShares thr (Suc nb) s"
proof -
  have "length secret - nb = Suc (length secret - Suc nb)"
    using assms by simp
  then show ?thesis
    by (simp add: share_after_def list_update_append)
qed

lemma split_byte_loop:
  assumes "1 \<le> thr"
  shows "nb \<le> length secret \<Longrightarrow>
   foldl (split_byte secret N (nat thr))
     (map (share_after r secret numShares thr 0) [0..<N], r) [0..<nb] =
     (map (share_after r secret numShares thr nb) [0..<N], \<lambda>k. r (k + nb * (nat thr - 1)))"
proof (induction nb)
  case 0
  then show ?case by simp
next
  case (Suc nb)
  then have nb: "nb < length secret" by simp
  have c: "take 1 ((replicate (nat thr) 0)[0 := secret ! nb]) @
        fst (getRandomValues (nat thr - 1) (\<lambda>k. r (k + nb * (nat thr - 1)))) =
        coeffs_at r secret (nat thr) nb"
    using assms by (cases "nat thr") (simp_all add: coeffs_at_def getRandomValues_def)
  have "split_byte secret N (nat thr)
          (map (share_after r secret numShares thr nb) [0..<N], \<lambda>k. r (k + nb * (nat thr - 1))) nb =
        (map (share_after r secret numShares thr (Suc nb)) [0..<N],
         \<lambda>k. r (k + Suc nb * (nat thr - 1)))"
    unfolding split_byte_def Let_def fst_conv snd_conv c
    by (simp add: split_store_loop share_after_step [OF nb] getRandomValues_def add.assoc add.commute)
  then show ?case
    using Suc by simp
qed

lemma split_result:
  assumes "2 \<le> thr" "thr \<le> numShares" "numShares \<le> 254"
  shows "split r secret numShares thr =
           Inr (map (share_after r secret numShares thr (length secret)) [0..<nat numShares])"
proof -
  have e: "map (\<lambda>i. \<lparr>share_id = Suc i, threshold = thr, totalShares = numShares,
                   data = replicate (length secret) 0\<rparr>) [0..<nat numShares] =
        map (share_after r secret numShares thr 0) [0..<nat numShares]"
    by (simp add: share_after_def)
  have "foldl (split_byte secret (nat numShares) (nat thr))
     (map (share_after r secret numShares thr 0) [0..<nat numShares], r) [0..<length secret] =
     (map (share_after r secret numShares thr (length secret)) [0..<nat numShares],
      \<lambda>k. r (k + length secret * (nat thr - 1)))"
    by (rule split_byte_loop) (use assms in simp_all)
  then show ?thesis
    using assms by (simp add: split_def Let_def e)
qed


lemma combine_loop:
  assumes "\<And>b. b < L \<Longrightarrow>
     lagrangeInterpolate (map (\<lambda>s. (share_id s, typed_get (data s) (Some b))) shares) = Inr (v b)"
  shows "n \<le> L \<Longrightarrow>
     foldl (combine_step shares) (Inr (replicate L 0)) [0..<n] =
       Inr (map (\<lambda>b. of_nat (v b)) [0..<n] @ replicate (L - n) 0)"
proof (induction n)
  case 0
  then show ?case by simp
next
  case (Suc n)
  then have n: "n < L" by simp
  then have "L - n = Suc (L - Suc n)" by simp
  then show ?case
    using Suc n assms [OF n] by (simp add: combine_step_def list_update_append)
qed

lemma length_coeffs_at: "1 \<le> thr \<Longrightarrow> length (coeffs_at r secret thr b) = thr"
  by (simp add: coeffs_at_def)

lemma horner_coeffs_at_0: "horner (map byte_gf (coeffs_at r secret thr b)) 0 = byte_gf (secret ! b)"
  by (simp add: coeffs_at_def)

lemma share_after_point:
  assumes "k < 255" "b < length secret"
  shows "(share_id (share_after r secret numShares thr (length secret) k),
          typed_get (data (share_after r secret numShares thr (length secret) k)) (Some b)) =
         (gf_nat (gf_abs (Suc k)),
          Some (gf_nat (horner (map byte_gf (coeffs_at r secret (nat thr) b)) (gf_abs (Suc k)))))"
proof -
  have k: "gf_nat (gf_abs (Suc k)) = Suc k"
    using assms(1) by (simp add: gf_nat_abs)
  have "evaluatePolynomial (coeffs_at r secret (nat thr) b) (Suc k) =
        gf_nat (horner (map byte_gf (coeffs_at r secret (nat thr) b)) (gf_abs (Suc k)))"
    using evaluatePolynomial_gf [of _ "gf_abs (Suc k)"] by (simp add: k)
  then show ?thesis
    using assms(2) by (simp add: share_after_def typed_get_def k unat_of_nat_byte gf_nat_less)
qed

lemma combine_split_shares:
  assumes thr: "2 \<le> thr" and N: "numShares \<le> 254"
    and ks: "distinct ks" "set ks \<subseteq> {0..<nat numShares}" "nat thr \<le> length ks"
  shows "combine (map (share_after r secret numShares thr (length secret)) ks) = Inr secret"
proof -
  let ?sh = "share_after r secret numShares thr (length secret)"
  let ?sub = "map ?sh ks"
  let ?X = "\<lambda>k. gf_abs (Suc k)"
  let ?C = "\<lambda>b. map byte_gf (coeffs_at r secret (nat thr) b)"
  have len: "2 \<le> length ?sub"
    using thr ks(3) by simp
  then have "ks \<noteq> []" by auto
  then have L: "length (data (?sub ! 0)) = length secret"
    by (cases ks) (simp_all add: share_after_def)
  have k255: "k < 255" if "k \<in> set ks" for k
    using that ks(2) N by auto
  have inj: "inj_on ?X (set ks)"
  proof (rule inj_onI)
    fix i j assume "i \<in> set ks" "j \<in> set ks" "gf_abs (Suc i) = gf_abs (Suc j)"
    then have "gf_nat (gf_abs (Suc i)) = gf_nat (gf_abs (Suc j))" by simp
    then show "i = j"
      using k255 [OF \<open>i \<in> set ks\<close>] k255 [OF \<open>j \<in> set ks\<close>] by (simp add: gf_nat_abs)
  qed
  have d: "distinct (map ?X ks)"
    using ks(1) inj by (simp add: distinct_map)
  have interp: "lagrangeInterpolate (map (\<lambda>s. (share_id s, typed_get (data s) (Some b))) ?sub) =
      Inr (unat (secret ! b))" if b: "b < length secret" for b
  proof -
    let ?ps = "map (\<lambda>k. (?X k, horner (?C b) (?X k))) ks"
    have pts: "map (\<lambda>s. (share_id s, typed_get (data s) (Some b))) ?sub = gf_points ?ps"
      unfolding gf_points_def map_map comp_def fst_conv snd_conv
      by (rule map_cong [OF refl]) (simp add: share_after_point [OF k255 b])
    have fst_ps: "map fst ?ps = map ?X ks"
      by (simp add: comp_def)
    have "lagrangeInterpolate (gf_points ?ps) =
        Inr (gf_nat (\<Sum>p\<leftarrow>?ps. lag_weight (map fst ?ps) (fst p) * snd p))"
      by (rule lagrangeInterpolate_gf) (simp only: fst_ps d)
    also have "(\<Sum>p\<leftarrow>?ps. lag_weight (map fst ?ps) (fst p) * snd p) =
        (\<Sum>v\<leftarrow>map ?X ks. lag_weight (map ?X ks) v * horner (?C b) v)"
      unfolding fst_ps by (simp add: comp_def)
    also have "\<dots> = horner (?C b) 0"
      by (rule lagrange_at_zero [OF d]) (use thr ks(3) in \<open>simp add: length_coeffs_at\<close>)
    finally show ?thesis
      by (simp only: pts horner_coeffs_at_0 gf_nat_byte_gf)
  qed
  have "foldl (combine_step ?sub) (Inr (replicate (length secret) 0)) [0..<length secret] =
      Inr (map (\<lambda>b. of_nat (unat (secret ! b))) [0..<length secret] @ replicate (length secret - length secret) 0)"
    by (rule combine_loop [where v = "\<lambda>b. unat (secret ! b)"]) (erule interp, simp)
  also have "map (\<lambda>b. of_nat (unat (secret ! b))) [0..<length secret] = secret"
    by (simp add: map_nth)
  finally show ?thesis
    using len by (simp add: combine_def L Let_def del: length_map)
qed

lemma share_after_id: "share_id (share_after r secret numShares thr nb k) = Suc k"
  by (simp add: share_after_def)


section \<open>Claims about split and combine\<close>

text \<open>
  Claim C1. For every byte sequence, every random source and \<open>2 \<le> M \<le> N \<le> 254\<close>,
  \<open>split\<close> returns \<open>N\<close> shares with the ids \<open>1, \<dots>, N\<close> in this order, and \<open>combine\<close>
  applied to any \<open>M\<close> distinct shares of them, in any order, returns the secret.
\<close>

theorem split_combine_roundtrip:
  assumes "2 \<le> thr" and "thr \<le> numShares" and "numShares \<le> 254"
  shows "\<exists>shares. split r secret numShares thr = Inr shares \<and>
           length shares = nat numShares \<and>
           map share_id shares = [1..<nat numShares + 1] \<and>
           (\<forall>sub. distinct sub \<and> set sub \<subseteq> set shares \<and> length sub = nat thr \<longrightarrow>
              combine sub = Inr secret)"
proof -
  let ?sh = "share_after r secret numShares thr (length secret)"
  let ?shares = "map ?sh [0..<nat numShares]"
  have s: "split r secret numShares thr = Inr ?shares"
    by (rule split_result [OF assms])
  have ids: "map share_id ?shares = [1..<nat numShares + 1]"
    by (simp add: comp_def share_after_id map_Suc_upt)
  have "combine sub = Inr secret"
    if sub: "distinct sub" "set sub \<subseteq> set ?shares" "length sub = nat thr" for sub
  proof -
    let ?ks = "map (\<lambda>s. share_id s - 1) sub"
    have inv: "?sh (share_id s - 1) = s \<and> share_id s - 1 < nat numShares" if "s \<in> set sub" for s
      using that sub(2) by (auto simp: share_after_id)
    have "map ?sh ?ks = sub"
      unfolding map_map comp_def by (rule map_idI) (use inv in blast)
    moreover from this have "distinct ?ks"
      using sub(1) by (metis distinct_map)
    moreover have "set ?ks \<subseteq> {0..<nat numShares}"
      using inv by auto
    moreover have "nat thr \<le> length ?ks"
      using sub(3) by simp
    ultimately show ?thesis
      using combine_split_shares [OF assms(1) assms(3), of ?ks r secret] by simp
  qed
  then show ?thesis
    using s ids by auto
qed

theorem split_combine_roundtrip_witness:
  "(2::int) \<le> 2 \<and> (2::int) \<le> 3 \<and> (3::int) \<le> 254 \<and>
   (\<exists>shares. split (\<lambda>k. 7) [65, 66] 3 2 = Inr shares \<and>
      length shares = 3 \<and> map share_id shares = [1, 2, 3] \<and>
      distinct [shares ! 2, shares ! 0] \<and> set [shares ! 2, shares ! 0] \<subseteq> set shares \<and>
      combine [shares ! 2, shares ! 0] = Inr [65, 66])"
proof -
  obtain shares where s: "split (\<lambda>k. 7) [65, 66] 3 2 = Inr shares"
    and len: "length shares = nat 3"
    and ids: "map share_id shares = [1..<nat 3 + 1]"
    and all: "\<forall>sub. distinct sub \<and> set sub \<subseteq> set shares \<and> length sub = nat 2 \<longrightarrow>
                combine sub = Inr [65, 66]"
    using split_combine_roundtrip [of 2 3 "\<lambda>k. 7" "[65, 66]"] by auto
  have ids3: "map share_id shares = [1, 2, 3]"
    using ids by (simp add: upt_rec)
  have "share_id (shares ! 2) = 3" "share_id (shares ! 0) = 1"
    using arg_cong [OF ids3, of "\<lambda>l. l ! 2"] arg_cong [OF ids3, of "\<lambda>l. l ! 0"] len
    by simp_all
  then have d: "distinct [shares ! 2, shares ! 0]"
    by auto
  have m: "set [shares ! 2, shares ! 0] \<subseteq> set shares"
    using len by simp
  have "combine [shares ! 2, shares ! 0] = Inr [65, 66]"
    using all d m by simp
  then show ?thesis
    using s len ids3 d m by auto
qed

section \<open>Division by zero in the interpolation\<close>











lemma combine_points_ids:
  "map fst (map (\<lambda>s. (share_id s, typed_get (data s) (Some b))) shares) = map share_id shares"
  by (simp add: comp_def)





section \<open>Claims about the failures of combine\<close>







section \<open>Claims about the check-in protocol\<close>




lemma elapsedHours_mono: "now \<le> now' \<Longrightarrow> elapsedHours now lastTime \<le> elapsedHours now' lastTime"
  by (simp add: elapsedHours_def divide_right_mono)




text \<open>
  Claim C5. \<open>verifyToken\<close> decodes the payload and parses it; when either fails, or the
  parsed value is \<^verbatim>\<open>null\<close>, the result is the failure record, whose status is INVALID
  and which is not valid. Otherwise the result is valid exactly when the hash of the
  decoded string equals the token's hash, and its status is DURESS when the marker
  \<^verbatim>\<open>_d\<close> is the string 1, whatever the hash, else OK when the hash matches, else
  INVALID. \<open>verifyToken\<close> returns a result for every token: it has no failure of its own.
\<close>

theorem verifyToken_classifies:
  "(case atob P (payload tokenObj) of
      Inl msg \<Rightarrow> verifyToken P now tokenObj = Failed msg
    | Inr payloadStr \<Rightarrow>
        (case JSON_parse P payloadStr of
           Inl msg \<Rightarrow> verifyToken P now tokenObj = Failed msg
         | Inr pl \<Rightarrow>
             (case get_property P pl ''_d'' of
                Inl msg \<Rightarrow> pl = JNull \<and> verifyToken P now tokenObj = Failed msg
              | Inr marker \<Rightarrow>
                  valid_of (verifyToken P now tokenObj) = (sha256 P payloadStr = token tokenObj) \<and>
                  status_of (verifyToken P now tokenObj) =
                    (if marker = Some (JStr ''1'') then DURESS
                     else if sha256 P payloadStr = token tokenObj then OK
                     else INVALID)))) \<and>
   status_of (Failed msg') = INVALID \<and> \<not> valid_of (Failed msg')"
proof -
  have "pl = JNull" if "get_property P pl ''_d'' = Inl m" for pl m
    using that by (cases pl) simp_all
  then show ?thesis
    by (auto simp: verifyToken_def Let_def split: sum.splits)
qed

lemma length_hex2: "length (hex2 b) = 2"
  by (simp add: hex2_def)

lemma length_sha256: "length (sha256 P s) = 2 * length (digest P s)"
proof -
  have "length (concat (map hex2 bs)) = 2 * length bs" for bs
    by (induction bs) (simp_all add: length_hex2)
  then show ?thesis by (simp add: sha256_def)
qed

lemma json_quote_marker: "length (json_quote ''1'') = length (json_quote ''0'')"
  by (simp add: json_quote_def json_quote_char_def)

lemma length_stringify_marker:
  "length (JSON_stringify [(''t'', ts), (''n'', nonce), (''p'', pkg), (''_d'', ''1'')]) =
   length (JSON_stringify [(''t'', ts), (''n'', nonce), (''p'', pkg), (''_d'', ''0'')])"
  using json_quote_marker by (simp add: JSON_stringify_def)

definition marked_token :: "platform \<Rightarrow> int \<Rightarrow> rng \<Rightarrow> string \<Rightarrow> string \<Rightarrow> checkin_token" where
  "marked_token P now r packageId marker =
     \<lparr>aegis_checkin = True, version = ''1.0.0'', timestamp = toISOString P now,
      package = packageId,
      token = sha256 P (JSON_stringify
                [(''t'', toISOString P now), (''n'', fst (generateId 8 r)), (''p'', packageId),
                 (''_d'', marker)]),
      payload = btoa P (JSON_stringify
                [(''t'', toISOString P now), (''n'', fst (generateId 8 r)), (''p'', packageId),
                 (''_d'', marker)])\<rparr>"

text \<open>
  Claim C6. For the same clock reading, random source and package id, the token that
  \<open>generateToken\<close> returns for a duress match and the one for a normal match are the
  same function \<open>marked_token\<close> of the marker, 1 or 0, which enters the serialised
  payload only: the other fields are equal, the encoded payloads have the same length
  and both hashes have 64 characters (for a platform whose \<^verbatim>\<open>btoa\<close> output length
  depends on the input length only, and whose digest has 32 bytes). When the input
  matches neither phrase the result is the constant \<^verbatim>\<open>{ valid: false }\<close>, with no token.
\<close>

theorem generateToken_duress_shape:
  assumes "\<forall>s s'. length s = length s' \<longrightarrow> length (btoa P s) = length (btoa P s')"
    and "\<forall>s. length (digest P s) = 32"
  shows "generateToken P now r passphrase duressPhrase duressPhrase packageId =
           Generated True (marked_token P now r packageId ''1'')
             (formatTokenDisplay P (marked_token P now r packageId ''1'')) \<and>
         (passphrase \<noteq> duressPhrase \<longrightarrow>
            generateToken P now r passphrase duressPhrase passphrase packageId =
              Generated False (marked_token P now r packageId ''0'')
                (formatTokenDisplay P (marked_token P now r packageId ''0''))) \<and>
         length (payload (marked_token P now r packageId ''1'')) =
           length (payload (marked_token P now r packageId ''0'')) \<and>
         length (token (marked_token P now r packageId ''1'')) = 64 \<and>
         length (token (marked_token P now r packageId ''0'')) = 64 \<and>
         (inputPhrase \<noteq> passphrase \<and> inputPhrase \<noteq> duressPhrase \<longrightarrow>
            generateToken P now r passphrase duressPhrase inputPhrase packageId = Rejected)"
proof -
  let ?m = "\<lambda>d. [(''t'', toISOString P now), (''n'', fst (generateId 8 r)), (''p'', packageId), (''_d'', d)]"
  have "length (btoa P (JSON_stringify (?m ''1''))) = length (btoa P (JSON_stringify (?m ''0'')))"
    using assms(1) length_stringify_marker by blast
  moreover have "length (sha256 P s) = 64" for s
    using assms(2) by (simp add: length_sha256)
  ultimately show ?thesis
    by (simp add: generateToken_def marked_token_def Let_def)
qed

text \<open>A platform to run the two theorems on.\<close>

definition sample_platform :: platform where
  "sample_platform =
     \<lparr>atob = Inr, btoa = (\<lambda>s. s), JSON_parse = (\<lambda>s. if s = [] then Inl ''SyntaxError'' else Inr (json_object [(''_d'', s)])),
      digest = (\<lambda>s. replicate 32 0), Date_parse = (\<lambda>v. None),
      toISOString = (\<lambda>t. ''2026-01-01T00:00:00.000Z''), toUpperCase = (\<lambda>s. s),
      null_property_message = ''TypeError''\<rparr>"

theorem verifyToken_classifies_witness:
  "status_of (verifyToken sample_platform 0
      \<lparr>aegis_checkin = True, version = ''1.0.0'', timestamp = ''2026'', package = ''pkg'',
       token = ''no hash'', payload = ''1''\<rparr>) = DURESS \<and>
   status_of (verifyToken sample_platform 0
      \<lparr>aegis_checkin = True, version = ''1.0.0'', timestamp = ''2026'', package = ''pkg'',
       token = sha256 sample_platform ''0'', payload = ''0''\<rparr>) = OK \<and>
   status_of (verifyToken sample_platform 0
      \<lparr>aegis_checkin = True, version = ''1.0.0'', timestamp = ''2026'', package = ''pkg'',
       token = ''no hash'', payload = ''0''\<rparr>) = INVALID \<and>
   verifyToken sample_platform 0
      \<lparr>aegis_checkin = True, version = ''1.0.0'', timestamp = ''2026'', package = ''pkg'',
       token = ''no hash'', payload = []\<rparr> = Failed ''SyntaxError''"
proof -
  have h: "length (sha256 sample_platform ''0'') = 64"
    by (simp add: length_sha256 sample_platform_def)
  then have "sha256 sample_platform ''0'' \<noteq> ''no hash''"
    by auto
  then show ?thesis
    using
      verifyToken_classifies [where P = sample_platform and now = 0 and tokenObj =
        "\<lparr>aegis_checkin = True, version = ''1.0.0'', timestamp = ''2026'', package = ''pkg'',
       token = ''no hash'', payload = ''1''\<rparr>"]
      verifyToken_classifies [where P = sample_platform and now = 0 and tokenObj =
        "\<lparr>aegis_checkin = True, version = ''1.0.0'', timestamp = ''2026'', package = ''pkg'',
       token = sha256 sample_platform ''0'', payload = ''0''\<rparr>"]
      verifyToken_classifies [where P = sample_platform and now = 0 and tokenObj =
        "\<lparr>aegis_checkin = True, version = ''1.0.0'', timestamp = ''2026'', package = ''pkg'',
       token = ''no hash'', payload = ''0''\<rparr>"]
      verifyToken_classifies [where P = sample_platform and now = 0 and tokenObj =
        "\<lparr>aegis_checkin = True, version = ''1.0.0'', timestamp = ''2026'', package = ''pkg'',
       token = ''no hash'', payload = []\<rparr>"]
    by (simp add: sample_platform_def json_object_def)
qed

theorem generateToken_duress_shape_witness:
  "generateToken sample_platform 0 (\<lambda>k. 7) ''open sesame'' ''help me'' ''help me'' ''pkg'' =
     Generated True (marked_token sample_platform 0 (\<lambda>k. 7) ''pkg'' ''1'')
       (formatTokenDisplay sample_platform (marked_token sample_platform 0 (\<lambda>k. 7) ''pkg'' ''1'')) \<and>
   generateToken sample_platform 0 (\<lambda>k. 7) ''open sesame'' ''help me'' ''open sesame'' ''pkg'' =
     Generated False (marked_token sample_platform 0 (\<lambda>k. 7) ''pkg'' ''0'')
       (formatTokenDisplay sample_platform (marked_token sample_platform 0 (\<lambda>k. 7) ''pkg'' ''0'')) \<and>
   length (payload (marked_token sample_platform 0 (\<lambda>k. 7) ''pkg'' ''1'')) =
     length (payload (marked_token sample_platform 0 (\<lambda>k. 7) ''pkg'' ''0'')) \<and>
   length (token (marked_token sample_platform 0 (\<lambda>k. 7) ''pkg'' ''1'')) = 64 \<and>
   length (token (marked_token sample_platform 0 (\<lambda>k. 7) ''pkg'' ''0'')) = 64 \<and>
   generateToken sample_platform 0 (\<lambda>k. 7) ''open sesame'' ''help me'' ''guess'' ''pkg'' = Rejected"
proof -
  have h1: "\<forall>s s'. length s = length s' \<longrightarrow>
      length (btoa sample_platform s) = length (btoa sample_platform s')"
    by (simp add: sample_platform_def)
  have h2: "\<forall>s. length (digest sample_platform s) = 32"
    by (simp add: sample_platform_def)
  have h3: "''open sesame'' \<noteq> ''help me''"
    by simp
  have g: "''guess'' \<noteq> ''open sesame'' \<and> ''guess'' \<noteq> ''help me''"
    by simp
  show ?thesis
    using generateToken_duress_shape [OF h1 h2, of 0 "\<lambda>k. 7" "''open sesame''" "''help me''" "''pkg''" "''guess''"] h3 g
    by blast
qed

section \<open>Claims about the envelope\<close>

lemma unpack_pack:
  "length (salt e) = SALT_LENGTH \<Longrightarrow> length (iv e) = IV_LENGTH \<Longrightarrow>
   unpackEncrypted (packEncrypted e) = e"
  by (simp add: unpackEncrypted_def packEncrypted_def)

lemma encrypt_lengths:
  "length (salt (fst (encrypt W r plaintext passphrase))) = SALT_LENGTH \<and>
   length (iv (fst (encrypt W r plaintext passphrase))) = IV_LENGTH"
  by (simp add: encrypt_def Let_def getRandomValues_def)

text \<open>
  Claim C2. For every byte sequence, passphrase and random source, \<open>decrypt\<close> of the
  envelope that \<open>encrypt\<close> returns, under the same passphrase, returns the byte sequence;
  so do \<open>decryptFile\<close> and \<open>encryptFile\<close> through the packed form. The platform's AES-GCM
  is taken to decrypt what it encrypted under the same key and initialisation vector.
\<close>

theorem decrypt_encrypt:
  assumes "\<forall>key nonce message.
     aes_gcm_decrypt W key nonce (aes_gcm_encrypt W key nonce message) = Some message"
  shows "decrypt W (fst (encrypt W r plaintext passphrase)) passphrase = Inr plaintext \<and>
         decryptFile W (fst (encryptFile W r plaintext passphrase)) passphrase = Inr plaintext"
proof -
  have d: "decrypt W (fst (encrypt W r plaintext passphrase)) passphrase = Inr plaintext"
    using assms by (simp add: decrypt_def encrypt_def Let_def)
  moreover have "unpackEncrypted (packEncrypted (fst (encrypt W r plaintext passphrase))) =
      fst (encrypt W r plaintext passphrase)"
    using encrypt_lengths [of W r plaintext passphrase] by (simp add: unpack_pack)
  ultimately show ?thesis
    by (simp add: decryptFile_def encryptFile_def Let_def)
qed

definition sample_webcrypto :: "string webcrypto" where
  "sample_webcrypto =
     \<lparr>pbkdf2 = (\<lambda>passphrase saltBytes iterations. passphrase),
      aes_gcm_encrypt = (\<lambda>key nonce message. rev message),
      aes_gcm_decrypt = (\<lambda>key nonce c. Some (rev c))\<rparr>"

theorem decrypt_encrypt_witness:
  "decrypt sample_webcrypto (fst (encrypt sample_webcrypto (\<lambda>k. 7) [104, 105] ''correct-horse''))
     ''correct-horse'' = Inr [104, 105] \<and>
   decryptFile sample_webcrypto (fst (encryptFile sample_webcrypto (\<lambda>k. 7) [104, 105] ''correct-horse''))
     ''correct-horse'' = Inr [104, 105]"
proof -
  have "\<forall>key nonce message.
     aes_gcm_decrypt sample_webcrypto key nonce (aes_gcm_encrypt sample_webcrypto key nonce message) =
       Some message"
    by (simp add: sample_webcrypto_def)
  then show ?thesis
    by (rule decrypt_encrypt)
qed

text \<open>
  The only failure of \<open>decrypt\<close> is the rejection of the platform's decryption, with
  one error value for every cause.
\<close>

lemma decrypt_fails_iff:
  "decrypt W e passphrase = Inl err \<longleftrightarrow>
     aes_gcm_decrypt W (deriveKey W passphrase (salt e)) (iv e) (ciphertext e) = None"
  by (cases err) (simp add: decrypt_def Let_def split: option.splits)

end
